theory Spec2Isabelle
  imports Main "HOL-Library.Word"
begin

text \<open>
  A model of the notebook that prepares the council's spending data: the files downloaded
  by the scraper are renamed to year and month, normalized to a common set of columns,
  checked for equal headers, combined into one dataset and cleaned of mis-decoded
  characters. Every cell of the notebook is a function on an explicit state (the working
  directory, the lines printed); library calls (\<open>pandas\<close>, \<open>natsort\<close>, \<open>os\<close>) are modelled
  by the behaviour their documentation gives. Definitions come first, then the facts
  proved about them.
\<close>

section \<open>Python values\<close>

text \<open>
  A Python \<open>str\<close> is a sequence of Unicode code points, so it is modelled as a list of
  natural numbers; \<open>bytes\<close> (the content of a file on disk) is a list of 8-bit words.
  \<open>ascii\<close> turns an ASCII literal of the theory into the Python string with the same
  characters.
\<close>

type_synonym pystr = "nat list"

type_synonym bytes = "8 word list"

definition ascii :: "string \<Rightarrow> pystr" where
  "ascii s = map (of_char :: char \<Rightarrow> nat) s"

datatype py_error =
    FileNotFoundError
  | IndexError
  | ValueError
  | AttributeError
  | InvalidIndexError
  | KeyError
  | UnicodeDecodeError
  | UnicodeEncodeError

text \<open>Python compares two \<open>str\<close> values lexicographically by code point.\<close>

fun str_lt :: "pystr \<Rightarrow> pystr \<Rightarrow> bool" where
  "str_lt [] [] = False"
| "str_lt [] (y # ys) = True"
| "str_lt (x # xs) [] = False"
| "str_lt (x # xs) (y # ys) = (if x = y then str_lt xs ys else x < y)"

text \<open>
  \<open>sorted\<close> is a stable sort that only uses \<open><\<close>: an element is placed after every
  element that is not greater than it. Stable insertion gives the same list.
\<close>

fun insort_lt :: "('a \<Rightarrow> 'a \<Rightarrow> bool) \<Rightarrow> 'a \<Rightarrow> 'a list \<Rightarrow> 'a list" where
  "insort_lt lt x [] = [x]"
| "insort_lt lt x (y # ys) = (if lt x y then x # y # ys else y # insort_lt lt x ys)"

definition sorted_lt :: "('a \<Rightarrow> 'a \<Rightarrow> bool) \<Rightarrow> 'a list \<Rightarrow> 'a list" where
  "sorted_lt lt xs = foldl (\<lambda>acc x. insort_lt lt x acc) [] xs"

definition py_sorted :: "pystr list \<Rightarrow> pystr list" where
  "py_sorted xs = sorted_lt str_lt xs"

text \<open>\<open>str(i)\<close> for an integer: decimal digits, with a leading minus sign when negative.\<close>

fun digits_of :: "nat \<Rightarrow> pystr" where
  "digits_of n = (if n < 10 then [48 + n] else digits_of (n div 10) @ [48 + n mod 10])"

declare digits_of.simps [simp del]

definition str_int :: "int \<Rightarrow> pystr" where
  "str_int i = (if i < 0 then 45 # digits_of (nat (- i)) else digits_of (nat i))"

section \<open>Natural sort\<close>

text \<open>
  \<open>natsorted\<close> (library \<open>natsort\<close>, default algorithm: unsigned integers) sorts by a key:
  the string is cut into maximal runs of decimal digits and runs of other characters, each
  digit run is read as a number, and an empty text is put in front when the string starts
  with a number, so that keys alternate text and number from a text. Keys are compared as
  Python tuples, and the sort is the stable sort of \<open>sorted\<close>. Only the ASCII digits
  \<open>0\<close> to \<open>9\<close> are taken as digits here, and the Unicode normalisation that the
  library applies to the key is left out: for names in ASCII the key is the library's.
\<close>

datatype chunk = Txt pystr | Numb nat

definition is_digit :: "nat \<Rightarrow> bool" where
  "is_digit c = (48 \<le> c \<and> c \<le> 57)"

definition int_of_digits :: "pystr \<Rightarrow> nat" where
  "int_of_digits ds = foldl (\<lambda>a c. 10 * a + (c - 48)) 0 ds"

function natsort_split :: "pystr \<Rightarrow> chunk list" where
  "natsort_split [] = []"
| "natsort_split (c # cs) =
     (if is_digit c
      then Numb (int_of_digits (c # takeWhile is_digit cs))
             # natsort_split (dropWhile is_digit cs)
      else Txt (c # takeWhile (\<lambda>x. \<not> is_digit x) cs)
             # natsort_split (dropWhile (\<lambda>x. \<not> is_digit x) cs))"
  by pat_completeness auto
termination
  by (relation "measure length") (auto simp: length_dropWhile_le less_Suc_eq_le)

definition natsort_key :: "pystr \<Rightarrow> chunk list" where
  "natsort_key s =
     (case natsort_split s of
        Numb n # r \<Rightarrow> Txt [] # Numb n # r
      | k \<Rightarrow> k)"

text \<open>
  Elements of a key at the same position have the same kind, since keys alternate from a
  text; the two mixed cases below cannot occur and only make the function total.
\<close>

fun chunk_lt :: "chunk \<Rightarrow> chunk \<Rightarrow> bool" where
  "chunk_lt (Txt a) (Txt b) = str_lt a b"
| "chunk_lt (Numb a) (Numb b) = (a < b)"
| "chunk_lt (Numb a) (Txt b) = True"
| "chunk_lt (Txt a) (Numb b) = False"

fun key_lt :: "chunk list \<Rightarrow> chunk list \<Rightarrow> bool" where
  "key_lt [] [] = False"
| "key_lt [] (y # ys) = True"
| "key_lt (x # xs) [] = False"
| "key_lt (x # xs) (y # ys) = (if x = y then key_lt xs ys else chunk_lt x y)"

definition natsorted :: "pystr list \<Rightarrow> pystr list" where
  "natsorted xs = sorted_lt (\<lambda>a b. key_lt (natsort_key a) (natsort_key b)) xs"

section \<open>Chronology Assigner\<close>

text \<open>
  The working directory is a finite map from file names to file contents.
  \<open>os.rename\<close> raises when the source is missing and, as on POSIX systems, silently
  replaces a destination that exists.
\<close>

type_synonym 'a directory = "pystr \<rightharpoonup> 'a"

definition os_rename :: "'a directory \<Rightarrow> pystr \<Rightarrow> pystr \<Rightarrow> py_error + 'a directory" where
  "os_rename d src dst =
     (case d src of
        None \<Rightarrow> Inl FileNotFoundError
      | Some c \<Rightarrow> Inr ((d(src := None))(dst \<mapsto> c)))"

text \<open>The new name \<open>f'{start_year}-{start_month}.csv'\<close>.\<close>

definition chron_name :: "int \<Rightarrow> int \<Rightarrow> pystr" where
  "chron_name start_year start_month =
     str_int start_year @ ascii ''-'' @ str_int start_month @ ascii ''.csv''"

text \<open>
  The renaming loop over the sorted listing. Besides the directory it returns the calls
  of \<open>os.rename\<close> it made, in order, as pairs of old and new name.
\<close>

fun rename_loop ::
  "'a directory \<Rightarrow> (pystr \<times> pystr) list \<Rightarrow> int \<Rightarrow> int \<Rightarrow> pystr list
     \<Rightarrow> py_error + ('a directory \<times> (pystr \<times> pystr) list)" where
  "rename_loop d calls start_year start_month [] = Inr (d, calls)"
| "rename_loop d calls start_year start_month (filename # rest) =
     (case os_rename d filename (chron_name start_year start_month) of
        Inl e \<Rightarrow> Inl e
      | Inr d' \<Rightarrow>
          (let calls' = calls @ [(filename, chron_name start_year start_month)];
               start_month' = start_month - 1
           in if start_month' = 0
              then rename_loop d' calls' (start_year - 1) 12 rest
              else rename_loop d' calls' start_year start_month' rest))"

text \<open>
  The cell: \<open>file_list = natsorted(os.listdir(DIRECTORY))\<close>, then the loop. The listing
  is what \<open>os.listdir\<close> returned, in whatever order; the anchor is \<open>start_year = 2023\<close>,
  \<open>start_month = 2\<close> in the notebook.
\<close>

definition chronology_assigner ::
  "int \<Rightarrow> int \<Rightarrow> pystr list \<Rightarrow> 'a directory
     \<Rightarrow> py_error + ('a directory \<times> (pystr \<times> pystr) list)" where
  "chronology_assigner start_year start_month listing d =
     rename_loop d [] start_year start_month (natsorted listing)"

text \<open>
  The labelling as the specification words it: the label of a (year, month) pair, and
  one decrement of the month, where month 1 wraps to month 12 of the previous year.
\<close>

definition label_text :: "int \<times> int \<Rightarrow> pystr" where
  "label_text a = str_int (fst a) @ ascii ''-'' @ str_int (snd a)"

definition decrement_month :: "int \<times> int \<Rightarrow> int \<times> int" where
  "decrement_month a = (if snd a = 1 then (fst a - 1, 12) else (fst a, snd a - 1))"

text \<open>The name the Fetcher gives the \<open>i\<close>-th download: \<open>f"{str(i)}.csv"\<close>.\<close>

definition scrape_name :: "nat \<Rightarrow> pystr" where
  "scrape_name i = str_int (int i) @ ascii ''.csv''"

text \<open>What is found under given names once a cell has run.\<close>

definition files_after :: "py_error + ('a directory \<times> 'b) \<Rightarrow> pystr list \<Rightarrow> py_error + 'a option list" where
  "files_after r names = (case r of Inl e \<Rightarrow> Inl e | Inr st \<Rightarrow> Inr (map (fst st) names))"

section \<open>Proof device: a list of renames\<close>

text \<open>Running a given list of \<open>os.rename\<close> calls; used to describe what the loop does.\<close>

fun rename_all :: "'a directory \<Rightarrow> (pystr \<times> pystr) list \<Rightarrow> py_error + 'a directory" where
  "rename_all d [] = Inr d"
| "rename_all d (p # ps) =
     (case os_rename d (fst p) (snd p) of Inl e \<Rightarrow> Inl e | Inr d' \<Rightarrow> rename_all d' ps)"

section \<open>Tables: CSV files and data frames\<close>

text \<open>
  A pandas DataFrame has an index (here only its length, the number of rows) and a
  sequence of labelled columns; labels may repeat. A cell is a Python \<open>str\<close>, a number,
  a boolean or the missing value. A CSV file in the working directory is modelled as the
  table it parses to, with the bytes of each header name and text field as stored on
  disk. The lexical layer of CSV (separators, quoting, rows of uneven length) and the
  type inference of \<open>read_csv\<close> are not modelled: a stored field keeps the kind it has,
  and column names are the ones pandas reports.
\<close>

datatype 's cell = Str 's | IntVal int | FloatVal int int | BoolVal bool | NaN

record 's table =
  index_len :: nat
  cols :: "('s \<times> 's cell list) list"

type_synonym frame = "pystr table"

type_synonym csv_file = "bytes table"

definition columns :: "'s table \<Rightarrow> 's list" where
  "columns df = map fst (cols df)"

definition wf_table :: "'s table \<Rightarrow> bool" where
  "wf_table df = list_all (\<lambda>c. length (snd c) = index_len df) (cols df)"

definition map_table :: "('a \<Rightarrow> 'b) \<Rightarrow> 'a table \<Rightarrow> 'b table" where
  "map_table f t =
     \<lparr>index_len = index_len t,
      cols = map (\<lambda>c. (f (fst c), map (map_cell f) (snd c))) (cols t)\<rparr>"

definition cell_strs :: "'s cell \<Rightarrow> 's list" where
  "cell_strs v = (case v of Str s \<Rightarrow> [s] | _ \<Rightarrow> [])"

definition table_strs :: "'s table \<Rightarrow> 's list" where
  "table_strs t = concat (map (\<lambda>c. fst c # concat (map cell_strs (snd c))) (cols t))"

subsection \<open>Encodings\<close>

text \<open>\<open>encoding='latin'\<close>: every byte is the code point of the same value.\<close>

definition latin1_decode :: "bytes \<Rightarrow> pystr" where
  "latin1_decode bs = map unat bs"

text \<open>
  UTF-8, the default of \<open>to_csv\<close> and of \<open>read_csv\<close>. Surrogates and values above
  \<open>0x10FFFF\<close> cannot be encoded; the decoder rejects stray continuation bytes, truncated
  and overlong forms, surrogates and values out of range.
\<close>

definition encodable_cp :: "nat \<Rightarrow> bool" where
  "encodable_cp c = (c < 0xD800 \<or> (0xDFFF < c \<and> c < 0x110000))"

definition utf8_encode_cp :: "nat \<Rightarrow> bytes" where
  "utf8_encode_cp c =
     (if c < 0x80 then [word_of_nat c]
      else if c < 0x800 then
        [word_of_nat (0xC0 + c div 64), word_of_nat (0x80 + c mod 64)]
      else if c < 0x10000 then
        [word_of_nat (0xE0 + c div 4096), word_of_nat (0x80 + c div 64 mod 64),
         word_of_nat (0x80 + c mod 64)]
      else
        [word_of_nat (0xF0 + c div 262144), word_of_nat (0x80 + c div 4096 mod 64),
         word_of_nat (0x80 + c div 64 mod 64), word_of_nat (0x80 + c mod 64)])"

definition utf8_encode :: "pystr \<Rightarrow> bytes" where
  "utf8_encode s = concat (map utf8_encode_cp s)"

definition is_cont :: "nat \<Rightarrow> bool" where
  "is_cont b = (0x80 \<le> b \<and> b < 0xC0)"

fun utf8_decode_nat :: "nat list \<Rightarrow> pystr option" where
  "utf8_decode_nat [] = Some []"
| "utf8_decode_nat [b] = (if b < 0x80 then Some [b] else None)"
| "utf8_decode_nat [b, b1] =
     (if b < 0x80 then map_option ((#) b) (utf8_decode_nat [b1])
      else if 0xC2 \<le> b \<and> b \<le> 0xDF \<and> is_cont b1
      then Some [(b - 0xC0) * 64 + (b1 - 0x80)]
      else None)"
| "utf8_decode_nat [b, b1, b2] =
     (if b < 0x80 then map_option ((#) b) (utf8_decode_nat [b1, b2])
      else if 0xC2 \<le> b \<and> b \<le> 0xDF \<and> is_cont b1
      then map_option ((#) ((b - 0xC0) * 64 + (b1 - 0x80))) (utf8_decode_nat [b2])
      else (let c = (b - 0xE0) * 4096 + (b1 - 0x80) * 64 + (b2 - 0x80)
            in if 0xE0 \<le> b \<and> b \<le> 0xEF \<and> is_cont b1 \<and> is_cont b2
                  \<and> 0x800 \<le> c \<and> encodable_cp c
               then Some [c] else None))"
| "utf8_decode_nat (b # b1 # b2 # b3 # r) =
     (if b < 0x80 then map_option ((#) b) (utf8_decode_nat (b1 # b2 # b3 # r))
      else if 0xC2 \<le> b \<and> b \<le> 0xDF \<and> is_cont b1
      then map_option ((#) ((b - 0xC0) * 64 + (b1 - 0x80))) (utf8_decode_nat (b2 # b3 # r))
      else (let c = (b - 0xE0) * 4096 + (b1 - 0x80) * 64 + (b2 - 0x80)
            in if 0xE0 \<le> b \<and> b \<le> 0xEF \<and> is_cont b1 \<and> is_cont b2
                  \<and> 0x800 \<le> c \<and> encodable_cp c
               then map_option ((#) c) (utf8_decode_nat (b3 # r))
               else (let c4 = (b - 0xF0) * 262144 + (b1 - 0x80) * 4096
                               + (b2 - 0x80) * 64 + (b3 - 0x80)
                     in if 0xF0 \<le> b \<and> b \<le> 0xF4 \<and> is_cont b1 \<and> is_cont b2 \<and> is_cont b3
                           \<and> 0x10000 \<le> c4 \<and> c4 < 0x110000
                        then map_option ((#) c4) (utf8_decode_nat r)
                        else None)))"

definition utf8_decode :: "bytes \<Rightarrow> pystr option" where
  "utf8_decode bs = utf8_decode_nat (map unat bs)"

subsection \<open>Reading and writing a CSV file\<close>

text \<open>
  \<open>pd.read_csv(path, encoding='latin')\<close> never fails to decode;
  \<open>pd.read_csv(path)\<close> raises when a name or a text field is not valid UTF-8;
  \<open>df.to_csv(path, index=False)\<close> writes UTF-8.
\<close>

definition read_csv_latin :: "csv_file \<Rightarrow> frame" where
  "read_csv_latin f = map_table latin1_decode f"

definition read_csv :: "csv_file \<Rightarrow> py_error + frame" where
  "read_csv f =
     (if list_all (\<lambda>s. utf8_decode s \<noteq> None) (table_strs f)
      then Inr (map_table (\<lambda>s. the (utf8_decode s)) f)
      else Inl UnicodeDecodeError)"

definition to_csv :: "frame \<Rightarrow> py_error + csv_file" where
  "to_csv df =
     (if list_all (list_all encodable_cp) (table_strs df)
      then Inr (map_table utf8_encode df)
      else Inl UnicodeEncodeError)"

definition read_file :: "csv_file directory \<Rightarrow> pystr \<Rightarrow> py_error + frame" where
  "read_file d filename =
     (case d filename of None \<Rightarrow> Inl FileNotFoundError | Some f \<Rightarrow> read_csv f)"

subsection \<open>Column operations of pandas\<close>

text \<open>\<open>df.rename(columns={key: value}, inplace=True)\<close> relabels every column named \<open>key\<close>.\<close>

definition df_rename :: "pystr \<Rightarrow> pystr \<Rightarrow> frame \<Rightarrow> frame" where
  "df_rename key val df =
     df\<lparr>cols := map (\<lambda>c. (if fst c = key then val else fst c, snd c)) (cols df)\<rparr>"

text \<open>
  \<open>df.insert(loc, column, value)\<close> with a scalar value: the label must be new and
  \<open>loc\<close> at most the number of columns; the value fills every row.
\<close>

definition df_insert :: "nat \<Rightarrow> pystr \<Rightarrow> pystr \<Rightarrow> frame \<Rightarrow> py_error + frame" where
  "df_insert loc column val df =
     (if column \<in> set (columns df) then Inl ValueError
      else if length (cols df) < loc then Inl IndexError
      else Inr (df\<lparr>cols := take loc (cols df)
                           @ [(column, replicate (index_len df) (Str val))]
                           @ drop loc (cols df)\<rparr>))"

text \<open>\<open>df.drop(columns=[name])\<close> removes every column named \<open>name\<close>; a missing label raises.\<close>

definition df_drop :: "pystr \<Rightarrow> frame \<Rightarrow> py_error + frame" where
  "df_drop name df =
     (if name \<notin> set (columns df) then Inl KeyError
      else Inr (df\<lparr>cols := filter (\<lambda>c. fst c \<noteq> name) (cols df)\<rparr>))"

text \<open>
  \<open>pd.concat(dataframes, ignore_index=True)\<close>: rows are appended in order and renumbered.
  When all frames have the same column labels, columns are matched by position; otherwise
  the labels of every frame must be unique, the result has the labels in order of first
  appearance, and a frame without a label contributes missing values. Every cell keeps
  its kind here: the change of a column of integers to floating point, which pandas makes
  when it fills in missing values, is not modelled.
\<close>

fun unique_in_order :: "'a list \<Rightarrow> 'a list" where
  "unique_in_order [] = []"
| "unique_in_order (x # xs) = x # filter (\<lambda>y. y \<noteq> x) (unique_in_order xs)"

definition column_or_nan :: "pystr \<Rightarrow> frame \<Rightarrow> pystr cell list" where
  "column_or_nan name df =
     (case map_of (cols df) name of
        None \<Rightarrow> replicate (index_len df) NaN
      | Some vs \<Rightarrow> vs)"

definition pd_concat :: "frame list \<Rightarrow> py_error + frame" where
  "pd_concat dataframes =
     (case dataframes of
        [] \<Rightarrow> Inl ValueError
      | df0 # _ \<Rightarrow>
          if list_all (\<lambda>df. columns df = columns df0) dataframes
          then Inr \<lparr>index_len = sum_list (map index_len dataframes),
                    cols = map (\<lambda>i. (columns df0 ! i,
                                      concat (map (\<lambda>df. snd (cols df ! i)) dataframes)))
                               [0..<length (cols df0)]\<rparr>
          else if list_ex (\<lambda>df. \<not> distinct (columns df)) dataframes
          then Inl InvalidIndexError
          else Inr \<lparr>index_len = sum_list (map index_len dataframes),
                    cols = map (\<lambda>name. (name,
                                      concat (map (column_or_nan name) dataframes)))
                               (unique_in_order (concat (map columns dataframes)))\<rparr>)"

subsection \<open>Strings and paths\<close>

definition endswith :: "pystr \<Rightarrow> pystr \<Rightarrow> bool" where
  "endswith s suffix =
     (length suffix \<le> length s \<and> drop (length s - length suffix) s = suffix)"

text \<open>\<open>s.rfind(c)\<close> for a single character: the last index of \<open>c\<close>, or \<open>-1\<close>.\<close>

definition rfind :: "pystr \<Rightarrow> nat \<Rightarrow> int" where
  "rfind s c =
     (case filter (\<lambda>i. s ! i = c) (rev [0..<length s]) of
        [] \<Rightarrow> - 1
      | i # _ \<Rightarrow> int i)"

text \<open>
  \<open>os.path.splitext\<close>: the extension starts at the last dot of the last path component,
  unless that component has nothing but dots before it.
\<close>

definition splitext :: "pystr \<Rightarrow> pystr \<times> pystr" where
  "splitext p =
     (let sepIndex = rfind p 47; dotIndex = rfind p 46
      in if sepIndex < dotIndex
            \<and> list_ex (\<lambda>k. p ! k \<noteq> 46) [nat (sepIndex + 1)..<nat dotIndex]
         then (take (nat dotIndex) p, drop (nat dotIndex) p)
         else (p, []))"

section \<open>Schema Normalizer\<close>

definition rename_columns :: "(pystr \<times> pystr) list" where
  "rename_columns =
     [(ascii ''Name'', ascii ''Supplier''),
      (ascii ''Description Line 1'', ascii ''Description 1''),
      (ascii ''Description Line 2'', ascii ''Description 2''),
      (ascii ''Description Line 3'', ascii ''Description 3'')]"

definition del_columns :: "pystr list" where
  "del_columns =
     [ascii ''Body'', ascii ''Body Name'', ascii ''Transaction Number'', ascii ''Ref'',
      ascii ''Unnamed: 8'', ascii ''Unnamed: 9'', ascii ''Unnamed: 0'']"

text \<open>The label a column has once the rename table has been applied.\<close>

definition renamed :: "pystr \<Rightarrow> pystr" where
  "renamed n = (case map_of rename_columns n of Some v \<Rightarrow> v | None \<Rightarrow> n)"

text \<open>\<open>for key, value in rename_columns.items(): if key in df.columns: df.rename(...)\<close>\<close>

fun rename_pass :: "(pystr \<times> pystr) list \<Rightarrow> frame \<Rightarrow> frame" where
  "rename_pass [] df = df"
| "rename_pass (kv # rest) df =
     rename_pass rest
       (if fst kv \<in> set (columns df) then df_rename (fst kv) (snd kv) df else df)"

text \<open>\<open>if 'Pay Date' not in df.columns: df.insert(2, 'Pay Date', os.path.splitext(filename)[0])\<close>\<close>

definition insert_pay_date :: "pystr \<Rightarrow> frame \<Rightarrow> py_error + frame" where
  "insert_pay_date filename df =
     (if ascii ''Pay Date'' \<notin> set (columns df)
      then df_insert 2 (ascii ''Pay Date'') (fst (splitext filename)) df
      else Inr df)"

text \<open>\<open>for name in del_columns: if name in df.columns: df = df.drop(columns=[name])\<close>\<close>

fun drop_pass :: "pystr list \<Rightarrow> frame \<Rightarrow> py_error + frame" where
  "drop_pass [] df = Inr df"
| "drop_pass (name # rest) df =
     (if name \<in> set (columns df)
      then (case df_drop name df of Inl e \<Rightarrow> Inl e | Inr df' \<Rightarrow> drop_pass rest df')
      else drop_pass rest df)"

text \<open>The three steps on the frame that was read.\<close>

definition normalize_frame :: "pystr \<Rightarrow> frame \<Rightarrow> py_error + frame" where
  "normalize_frame filename df =
     (case insert_pay_date filename (rename_pass rename_columns df) of
        Inl e \<Rightarrow> Inl e
      | Inr df' \<Rightarrow> drop_pass del_columns df')"

text \<open>
  The body of the loop for one directory entry. The state is the directory and the lines
  printed so far. Entries that do not end in \<open>.csv\<close> are left alone.
\<close>

definition normalize_file ::
  "pystr \<Rightarrow> csv_file directory \<times> pystr list \<Rightarrow> py_error + (csv_file directory \<times> pystr list)" where
  "normalize_file filename st =
     (if endswith filename (ascii ''.csv'')
      then (case fst st filename of
              None \<Rightarrow> Inl FileNotFoundError
            | Some f \<Rightarrow>
                (case normalize_frame filename (read_csv_latin f) of
                   Inl e \<Rightarrow> Inl e
                 | Inr df \<Rightarrow>
                     (let out = (if length (columns df) \<noteq> 6 then snd st @ [filename] else snd st)
                      in case to_csv df of
                           Inl e \<Rightarrow> Inl e
                         | Inr f' \<Rightarrow> Inr ((fst st)(filename \<mapsto> f'), out))))
      else Inr st)"

text \<open>\<open>for filename in os.listdir(DIRECTORY): ...\<close>\<close>

fun schema_normalizer ::
  "pystr list \<Rightarrow> csv_file directory \<times> pystr list \<Rightarrow> py_error + (csv_file directory \<times> pystr list)" where
  "schema_normalizer [] st = Inr st"
| "schema_normalizer (filename # rest) st =
     (case normalize_file filename st of
        Inl e \<Rightarrow> Inl e
      | Inr st' \<Rightarrow> schema_normalizer rest st')"

section \<open>Schema Validator\<close>

text \<open>
  The cell runs in the kernel of the notebook, where \<open>exit\<close> is the kernel's own object:
  calling it does not raise, it records that the kernel is to stop once the cell is done
  (the shell's \<open>exit_now\<close>) and returns. So the loop goes on after \<open>exit()\<close>. A run is
  the lines printed and whether the exit was asked for. The directory is returned with
  the result.
\<close>

record run =
  printed :: "pystr list"
  exit_now :: bool

fun check_columns ::
  "csv_file directory \<Rightarrow> pystr list \<Rightarrow> pystr list \<Rightarrow> run \<Rightarrow> py_error + run" where
  "check_columns d column_names [] r = Inr r"
| "check_columns d column_names (file # rest) r =
     (case read_file d file of
        Inl e \<Rightarrow> Inl e
      | Inr next_file \<Rightarrow>
          if columns next_file \<noteq> column_names
          then check_columns d column_names rest
                 (r\<lparr>printed := printed r @ [ascii ''Column names in '' @ file @ ascii '' do not match''],
                    exit_now := True\<rparr>)
          else check_columns d column_names rest r)"

definition schema_validator ::
  "pystr list \<Rightarrow> csv_file directory \<Rightarrow> py_error + (csv_file directory \<times> run)" where
  "schema_validator listing d =
     (case py_sorted listing of
        [] \<Rightarrow> Inl IndexError
      | first # rest \<Rightarrow>
          (case read_file d first of
             Inl e \<Rightarrow> Inl e
           | Inr first_file \<Rightarrow>
               (case check_columns d (columns first_file) rest \<lparr>printed = [], exit_now = False\<rparr> of
                  Inl e \<Rightarrow> Inl e
                | Inr r \<Rightarrow> Inr (d, r\<lparr>printed := printed r @ [ascii ''all columns match!'']\<rparr>))))"

section \<open>Combiner\<close>

text \<open>The loop that reads every \<open>.csv\<close> entry of the listing, in listing order.\<close>

fun read_dataframes :: "csv_file directory \<Rightarrow> pystr list \<Rightarrow> py_error + frame list" where
  "read_dataframes d [] = Inr []"
| "read_dataframes d (filename # rest) =
     (if endswith filename (ascii ''.csv'')
      then (case read_file d filename of
              Inl e \<Rightarrow> Inl e
            | Inr df \<Rightarrow>
                (case read_dataframes d rest of
                   Inl e \<Rightarrow> Inl e
                 | Inr dfs \<Rightarrow> Inr (df # dfs)))
      else read_dataframes d rest)"

definition combined_df :: "pystr list \<Rightarrow> csv_file directory \<Rightarrow> py_error + frame" where
  "combined_df listing d =
     (case read_dataframes d listing of
        Inl e \<Rightarrow> Inl e
      | Inr dataframes \<Rightarrow> pd_concat dataframes)"

text \<open>The cell returns the file it writes, \<open>bristol_spending_data.csv\<close>.\<close>

definition combiner :: "pystr list \<Rightarrow> csv_file directory \<Rightarrow> py_error + csv_file" where
  "combiner listing d =
     (case combined_df listing d of
        Inl e \<Rightarrow> Inl e
      | Inr df \<Rightarrow> to_csv df)"

text \<open>The canonical header, in the order the specification lists it.\<close>

definition canonical_header :: "pystr list" where
  "canonical_header =
     [ascii ''Supplier'', ascii ''Description 1'', ascii ''Description 2'',
      ascii ''Description 3'', ascii ''Pay Date'', ascii ''Amount'']"

text \<open>
  The header of the consolidated dataset when the normalizer cell and then the combiner
  cell are run on a directory.
\<close>

definition consolidated_header :: "pystr list \<Rightarrow> csv_file directory \<Rightarrow> py_error + pystr list" where
  "consolidated_header listing d =
     (case schema_normalizer listing (d, []) of
        Inl e \<Rightarrow> Inl e
      | Inr st \<Rightarrow>
          (case combined_df listing (fst st) of
             Inl e \<Rightarrow> Inl e
           | Inr df \<Rightarrow> Inr (columns df)))"

section \<open>Text Sanitizer\<close>

text \<open>
  \<open>x.replace(char, '')\<close> where \<open>char\<close> is a string of one character removes every
  occurrence of that character. The general \<open>str.replace(old, new)\<close> replaces the
  occurrences of \<open>old\<close> found from left to right without overlap.
\<close>

function str_replace :: "pystr \<Rightarrow> pystr \<Rightarrow> pystr \<Rightarrow> pystr" where
  "str_replace old new s =
     (if old = [] then new @ concat (map (\<lambda>c. c # new) s)
      else if s = [] then []
      else if take (length old) s = old then new @ str_replace old new (drop (length old) s)
      else hd s # str_replace old new (tl s))"
  by pat_completeness auto
termination
  by (relation "measure (\<lambda>(old, new, s). length s)") (auto simp: neq_Nil_conv)

declare str_replace.simps [simp del]

definition chars_to_remove :: "pystr list" where
  "chars_to_remove = [[0xC2], [0xC3]]"

fun remove_chars :: "pystr list \<Rightarrow> pystr \<Rightarrow> pystr" where
  "remove_chars [] x = x"
| "remove_chars (char # rest) x = remove_chars rest (str_replace char [] x)"

fun clean_text :: "pystr cell \<Rightarrow> pystr list \<Rightarrow> pystr cell" where
  "clean_text (Str x) chars = Str (remove_chars chars x)"
| "clean_text x chars = x"

text \<open>\<open>df.applymap(f)\<close> applies \<open>f\<close> to every cell and keeps index and labels.\<close>

definition applymap :: "(pystr cell \<Rightarrow> pystr cell) \<Rightarrow> frame \<Rightarrow> frame" where
  "applymap f df = df\<lparr>cols := map (\<lambda>c. (fst c, map f (snd c))) (cols df)\<rparr>"

definition text_sanitizer :: "csv_file \<Rightarrow> py_error + csv_file" where
  "text_sanitizer file =
     (case read_csv file of
        Inl e \<Rightarrow> Inl e
      | Inr df \<Rightarrow> to_csv (applymap (\<lambda>x. clean_text x chars_to_remove) df))"

section \<open>Amount sign normalization\<close>

text \<open>
  \<open>df.num\<close> is the column labelled \<open>num\<close> when there is one and an attribute error
  otherwise. The \<open>.str\<close> accessor needs a column that holds text. The final
  \<open>astype('float')\<close>, Python's parser of floating-point text, is a parameter.
\<close>

definition getattr_column :: "frame \<Rightarrow> pystr \<Rightarrow> py_error + pystr cell list" where
  "getattr_column df name =
     (case map_of (cols df) name of
        None \<Rightarrow> Inl AttributeError
      | Some vs \<Rightarrow> Inr vs)"

definition str_accessor :: "pystr cell list \<Rightarrow> py_error + pystr cell list" where
  "str_accessor vs = (if list_ex (\<lambda>v. cell_strs v \<noteq> []) vs then Inr vs else Inl AttributeError)"

definition str_last :: "pystr cell \<Rightarrow> pystr cell" where
  "str_last v = (case v of Str s \<Rightarrow> (if s = [] then NaN else Str [last s]) | _ \<Rightarrow> NaN)"

definition str_butlast :: "pystr cell \<Rightarrow> pystr cell" where
  "str_butlast v = (case v of Str s \<Rightarrow> Str (butlast s) | _ \<Rightarrow> NaN)"

definition str_cat :: "pystr cell \<Rightarrow> pystr cell \<Rightarrow> pystr cell" where
  "str_cat a b = (case (a, b) of (Str x, Str y) \<Rightarrow> Str (x @ y) | _ \<Rightarrow> NaN)"

definition isin_signs :: "pystr cell \<Rightarrow> bool" where
  "isin_signs v = (v = Str (ascii ''-'') \<or> v = Str (ascii ''+''))"

definition sign_fixup :: "(pystr cell list \<Rightarrow> py_error + 'r) \<Rightarrow> frame \<Rightarrow> py_error + 'r" where
  "sign_fixup astype_float df =
     (case getattr_column df (ascii ''num'') of
        Inl e \<Rightarrow> Inl e
      | Inr num \<Rightarrow>
          (case str_accessor num of
             Inl e \<Rightarrow> Inl e
           | Inr s \<Rightarrow>
               astype_float
                 (map (\<lambda>v. if isin_signs (str_last v) then str_cat (str_last v) (str_butlast v)
                            else v) s)))"

definition sign_fixup_cell ::
  "(pystr cell list \<Rightarrow> py_error + 'r) \<Rightarrow> csv_file \<Rightarrow> py_error + 'r" where
  "sign_fixup_cell astype_float file =
     (case read_csv file of
        Inl e \<Rightarrow> Inl e
      | Inr df \<Rightarrow> sign_fixup astype_float df)"


section \<open>Example data\<close>

text \<open>ASCII text as bytes, and a table with a single row.\<close>

definition ascii_bytes :: "string \<Rightarrow> bytes" where
  "ascii_bytes s = map of_char s"

definition one_row :: "('s \<times> 's cell) list \<Rightarrow> 's table" where
  "one_row r = \<lparr>index_len = 1, cols = map (\<lambda>c. (fst c, [snd c])) r\<rparr>"

definition file_abc :: csv_file where
  "file_abc = one_row [(ascii_bytes ''A'', IntVal 1), (ascii_bytes ''B'', IntVal 2), (ascii_bytes ''C'', IntVal 3)]"

definition file_acb :: csv_file where
  "file_acb = one_row [(ascii_bytes ''A'', IntVal 1), (ascii_bytes ''C'', IntVal 3), (ascii_bytes ''B'', IntVal 2)]"

definition validator_dir :: "csv_file directory" where
  "validator_dir =
     [ascii ''a.csv'' \<mapsto> file_abc, ascii ''b.csv'' \<mapsto> file_acb, ascii ''c.csv'' \<mapsto> file_abc,
      ascii ''d.csv'' \<mapsto> file_acb]"


text \<open>A file as published, without a date column, and two files in canonical form.\<close>

definition file_raw :: csv_file where
  "file_raw = one_row
     [(ascii_bytes ''Name'', Str (ascii_bytes ''Acme'')),
      (ascii_bytes ''Description Line 1'', Str (ascii_bytes ''Roads'')),
      (ascii_bytes ''Description Line 2'', Str (ascii_bytes ''Repairs'')),
      (ascii_bytes ''Description Line 3'', NaN),
      (ascii_bytes ''Amount'', IntVal 750)]"

definition file_jan :: csv_file where
  "file_jan = one_row
     [(ascii_bytes ''Supplier'', Str (ascii_bytes ''Acme'')),
      (ascii_bytes ''Description 1'', Str (ascii_bytes ''Roads'')),
      (ascii_bytes ''Description 2'', Str (ascii_bytes ''Repairs'')),
      (ascii_bytes ''Description 3'', NaN),
      (ascii_bytes ''Pay Date'', Str (ascii_bytes ''2023-1'')),
      (ascii_bytes ''Amount'', IntVal 750)]"

definition file_feb :: csv_file where
  "file_feb = one_row
     [(ascii_bytes ''Supplier'', Str (ascii_bytes ''Bolt'')),
      (ascii_bytes ''Description 1'', Str (ascii_bytes ''Parks'')),
      (ascii_bytes ''Description 2'', NaN),
      (ascii_bytes ''Description 3'', NaN),
      (ascii_bytes ''Pay Date'', Str (ascii_bytes ''2023-2'')),
      (ascii_bytes ''Amount'', IntVal 900)]"

definition combiner_dir :: "csv_file directory" where
  "combiner_dir = [ascii ''2023-1.csv'' \<mapsto> file_jan, ascii ''2023-2.csv'' \<mapsto> file_feb]"

text \<open>The two canonical files as frames.\<close>

definition frame_jan :: frame where
  "frame_jan = one_row
     [(ascii ''Supplier'', Str (ascii ''Acme'')),
      (ascii ''Description 1'', Str (ascii ''Roads'')),
      (ascii ''Description 2'', Str (ascii ''Repairs'')),
      (ascii ''Description 3'', NaN),
      (ascii ''Pay Date'', Str (ascii ''2023-1'')),
      (ascii ''Amount'', IntVal 750)]"

definition frame_feb :: frame where
  "frame_feb = one_row
     [(ascii ''Supplier'', Str (ascii ''Bolt'')),
      (ascii ''Description 1'', Str (ascii ''Parks'')),
      (ascii ''Description 2'', NaN),
      (ascii ''Description 3'', NaN),
      (ascii ''Pay Date'', Str (ascii ''2023-2'')),
      (ascii ''Amount'', IntVal 900)]"

text \<open>A file with two columns and no date, and what the normalizer makes of it.\<close>

definition file_short :: csv_file where
  "file_short = one_row
     [(ascii_bytes ''Name'', Str (ascii_bytes ''Acme'')),
      (ascii_bytes ''Amount'', IntVal 750)]"

definition frame_short :: frame where
  "frame_short = one_row
     [(ascii ''Supplier'', Str (ascii ''Acme'')),
      (ascii ''Amount'', IntVal 750),
      (ascii ''Pay Date'', Str (ascii ''2023-1''))]"

definition file_short_normalized :: csv_file where
  "file_short_normalized = one_row
     [(ascii_bytes ''Supplier'', Str (ascii_bytes ''Acme'')),
      (ascii_bytes ''Amount'', IntVal 750),
      (ascii_bytes ''Pay Date'', Str (ascii_bytes ''2023-1''))]"

text \<open>
  A file in canonical form whose supplier is \<open>Caf\<close> followed by \<open>U+00E9\<close>: as
  published in Latin-1, as the normalizer writes it in UTF-8, and as a second pass of the
  normalizer writes it.
\<close>

definition cafe_file :: "bytes \<Rightarrow> csv_file" where
  "cafe_file supplier = one_row
     [(ascii_bytes ''Supplier'', Str supplier),
      (ascii_bytes ''Description 1'', Str (ascii_bytes ''Roads'')),
      (ascii_bytes ''Description 2'', Str (ascii_bytes ''Repairs'')),
      (ascii_bytes ''Description 3'', NaN),
      (ascii_bytes ''Pay Date'', Str (ascii_bytes ''2023-1'')),
      (ascii_bytes ''Amount'', IntVal 750)]"

definition cafe_published :: csv_file where
  "cafe_published = cafe_file (ascii_bytes ''Caf'' @ [0xE9])"

definition cafe_once :: csv_file where
  "cafe_once = cafe_file (ascii_bytes ''Caf'' @ [0xC3, 0xA9])"

definition cafe_twice :: csv_file where
  "cafe_twice = cafe_file (ascii_bytes ''Caf'' @ [0xC3, 0x83, 0xC2, 0xA9])"

definition cafe_frame :: "pystr \<Rightarrow> frame" where
  "cafe_frame supplier = one_row
     [(ascii ''Supplier'', Str supplier),
      (ascii ''Description 1'', Str (ascii ''Roads'')),
      (ascii ''Description 2'', Str (ascii ''Repairs'')),
      (ascii ''Description 3'', NaN),
      (ascii ''Pay Date'', Str (ascii ''2023-1'')),
      (ascii ''Amount'', IntVal 750)]"

text \<open>A file as published in another year, with reference columns and its own date.\<close>

definition file_legacy :: csv_file where
  "file_legacy = one_row
     [(ascii_bytes ''Body Name'', Str (ascii_bytes ''Council'')),
      (ascii_bytes ''Name'', Str (ascii_bytes ''Acme'')),
      (ascii_bytes ''Description Line 1'', Str (ascii_bytes ''Roads'')),
      (ascii_bytes ''Description Line 2'', Str (ascii_bytes ''Repairs'')),
      (ascii_bytes ''Description Line 3'', NaN),
      (ascii_bytes ''Pay Date'', Str (ascii_bytes ''15/01/2023'')),
      (ascii_bytes ''Amount'', IntVal 750),
      (ascii_bytes ''Transaction Number'', IntVal 4711)]"

definition frame_raw_normalized :: frame where
  "frame_raw_normalized = one_row
     [(ascii ''Supplier'', Str (ascii ''Acme'')),
      (ascii ''Description 1'', Str (ascii ''Roads'')),
      (ascii ''Pay Date'', Str (ascii ''2023-1'')),
      (ascii ''Description 2'', Str (ascii ''Repairs'')),
      (ascii ''Description 3'', NaN),
      (ascii ''Amount'', IntVal 750)]"

section \<open>Facts about sorting and decimal names\<close>

lemma chron_name_label: "chron_name y m = label_text (y, m) @ ascii ''.csv''"
  by (simp add: chron_name_def label_text_def)

lemma os_rename_present:
  "d src = Some c \<Longrightarrow> os_rename d src dst = Inr ((d(src := None))(dst \<mapsto> c))"
  by (simp add: os_rename_def)

lemma rename_loop_step:
  "d filename = Some c \<Longrightarrow>
   rename_loop d calls y m (filename # rest) =
     rename_loop ((d(filename := None))(chron_name y m \<mapsto> c))
       (calls @ [(filename, chron_name y m)])
       (fst (decrement_month (y, m))) (snd (decrement_month (y, m))) rest"
  by (simp add: os_rename_present decrement_month_def Let_def)

lemma rename_loop_calls:
  "distinct fl \<Longrightarrow> set fl \<subseteq> dom d \<Longrightarrow>
   \<exists>d'. rename_loop d calls y m fl =
     Inr (d', calls @ map (\<lambda>i. (fl ! i, label_text ((decrement_month ^^ i) (y, m)) @ ascii ''.csv''))
                        [0..<length fl])"
proof (induction fl arbitrary: d calls y m)
  case Nil
  then show ?case by simp
next
  case (Cons f rest)
  from Cons.prems obtain c where c: "d f = Some c" by auto
  let ?d = "(d(f := None))(chron_name y m \<mapsto> c)"
  let ?a = "decrement_month (y, m)"
  have sub: "set rest \<subseteq> dom ?d" using Cons.prems by auto
  have dis: "distinct rest" using Cons.prems by simp
  from Cons.IH [OF dis sub, of "calls @ [(f, chron_name y m)]" "fst ?a" "snd ?a"]
  obtain d' where d': "rename_loop ?d (calls @ [(f, chron_name y m)]) (fst ?a) (snd ?a) rest =
     Inr (d', (calls @ [(f, chron_name y m)]) @
        map (\<lambda>i. (rest ! i, label_text ((decrement_month ^^ i) (fst ?a, snd ?a)) @ ascii ''.csv''))
                        [0..<length rest])" by blast
  have eq: "(calls @ [(f, chron_name y m)]) @
        map (\<lambda>i. (rest ! i, label_text ((decrement_month ^^ i) (fst ?a, snd ?a)) @ ascii ''.csv''))
                        [0..<length rest] =
      calls @ map (\<lambda>i. ((f # rest) ! i, label_text ((decrement_month ^^ i) (y, m)) @ ascii ''.csv''))
                        [0..<length (f # rest)]"
    by (simp add: map_upt_Suc funpow_swap1 chron_name_label del: upt_Suc)
  have "rename_loop d calls y m (f # rest) =
      rename_loop ?d (calls @ [(f, chron_name y m)]) (fst ?a) (snd ?a) rest"
    using c by (rule rename_loop_step)
  then have "rename_loop d calls y m (f # rest) = Inr (d', calls @
      map (\<lambda>i. ((f # rest) ! i, label_text ((decrement_month ^^ i) (y, m)) @ ascii ''.csv''))
                        [0..<length (f # rest)])"
    unfolding d' eq .
  then show ?case by blast
qed

lemma length_insort_lt: "length (insort_lt lt x xs) = Suc (length xs)"
  by (induction xs) auto

lemma set_insort_lt: "set (insort_lt lt x xs) = insert x (set xs)"
  by (induction xs) auto

lemma distinct_insort_lt: "distinct (insort_lt lt x xs) = (x \<notin> set xs \<and> distinct xs)"
  by (induction xs) (auto simp: set_insort_lt)

lemma sorted_lt_aux:
  "length (foldl (\<lambda>acc x. insort_lt lt x acc) acc xs) = length acc + length xs \<and>
   set (foldl (\<lambda>acc x. insort_lt lt x acc) acc xs) = set acc \<union> set xs \<and>
   (distinct (foldl (\<lambda>acc x. insort_lt lt x acc) acc xs) = distinct (acc @ xs))"
  by (induction xs arbitrary: acc)
     (auto simp: length_insort_lt set_insort_lt distinct_insort_lt)

lemma length_sorted_lt: "length (sorted_lt lt xs) = length xs"
  and set_sorted_lt: "set (sorted_lt lt xs) = set xs"
  and distinct_sorted_lt: "distinct (sorted_lt lt xs) = distinct xs"
  using sorted_lt_aux [of lt "[]" xs] by (simp_all add: sorted_lt_def)


lemma int_of_digits_digits_of: "int_of_digits (digits_of n) = n"
proof (induction n rule: digits_of.induct)
  case (1 n)
  show ?case
  proof (cases "n < 10")
    case True
    then show ?thesis by (simp add: digits_of.simps [of n] int_of_digits_def)
  next
    case False
    with 1 have "int_of_digits (digits_of (n div 10)) = n div 10" by simp
    with False show ?thesis
      by (simp add: digits_of.simps [of n] int_of_digits_def)
  qed
qed

lemma digits_of_inj: "digits_of a = digits_of b \<Longrightarrow> a = b"
  by (metis int_of_digits_digits_of)

lemma digits_of_is_digit: "c \<in> set (digits_of n) \<Longrightarrow> is_digit c"
proof (induction n rule: digits_of.induct)
  case (1 n)
  then show ?case
    by (cases "n < 10") (auto simp: digits_of.simps [of n] is_digit_def)
qed

lemma digits_of_nonempty: "digits_of n \<noteq> []"
  by (subst digits_of.simps) simp

lemma minus_not_digit: "45 \<notin> set (digits_of n)"
  using digits_of_is_digit [of 45 n] by (auto simp: is_digit_def)

lemma str_int_inj: "str_int a = str_int b \<Longrightarrow> a = b"
proof -
  assume eq: "str_int a = str_int b"
  have hd_nonneg: "\<And>n. hd (digits_of n) \<noteq> 45"
    using minus_not_digit digits_of_nonempty by (metis hd_in_set)
  show "a = b"
  proof (cases "a < 0"; cases "b < 0")
    assume "a < 0" "b < 0"
    with eq have "digits_of (nat (- a)) = digits_of (nat (- b))" by (simp add: str_int_def)
    then have "nat (- a) = nat (- b)" by (rule digits_of_inj)
    with \<open>a < 0\<close> \<open>b < 0\<close> show ?thesis by simp
  next
    assume "a < 0" "\<not> b < 0"
    with eq have "45 # digits_of (nat (- a)) = digits_of (nat b)" by (simp add: str_int_def)
    then have "hd (digits_of (nat b)) = 45" by (metis list.sel(1))
    with hd_nonneg show ?thesis by blast
  next
    assume "\<not> a < 0" "b < 0"
    with eq have "digits_of (nat a) = 45 # digits_of (nat (- b))" by (simp add: str_int_def)
    then have "hd (digits_of (nat a)) = 45" by (metis list.sel(1))
    with hd_nonneg show ?thesis by blast
  next
    assume "\<not> a < 0" "\<not> b < 0"
    with eq have "digits_of (nat a) = digits_of (nat b)" by (simp add: str_int_def)
    then have "nat a = nat b" by (rule digits_of_inj)
    with \<open>\<not> a < 0\<close> \<open>\<not> b < 0\<close> show ?thesis by simp
  qed
qed

lemma split_at_last:
  "x \<notin> set u \<Longrightarrow> x \<notin> set v \<Longrightarrow> a @ x # u = b @ x # v \<Longrightarrow> a = b \<and> u = v"
proof (induction a arbitrary: b)
  case Nil
  then show ?case by (cases b) auto
next
  case (Cons y a)
  then show ?case by (cases b) auto
qed

lemma minus_not_in_str_int: "0 \<le> m \<Longrightarrow> 45 \<notin> set (str_int m)"
  by (simp add: str_int_def minus_not_digit)

lemma ascii_minus: "ascii ''-'' = [45]"
  by (simp add: ascii_def)

lemma ascii_csv: "ascii ''.csv'' = [46, 99, 115, 118]"
  by (simp add: ascii_def)

lemma chron_name_inj:
  assumes "0 \<le> m" "0 \<le> m'" "chron_name y m = chron_name y' m'"
  shows "y = y' \<and> m = m'"
proof -
  let ?u = "str_int m @ ascii ''.csv''" and ?v = "str_int m' @ ascii ''.csv''"
  have "45 \<notin> set ?u" "45 \<notin> set ?v"
    using assms(1,2) by (simp_all add: minus_not_in_str_int ascii_csv)
  moreover have "str_int y @ 45 # ?u = str_int y' @ 45 # ?v"
    using assms(3) by (simp add: chron_name_def ascii_minus)
  ultimately have "str_int y = str_int y' \<and> ?u = ?v" by (rule split_at_last)
  then show ?thesis by (auto dest: str_int_inj)
qed

lemma minus_in_chron_name: "45 \<in> set (chron_name y m)"
  by (simp add: chron_name_def ascii_minus)

lemma minus_not_in_scrape_name: "45 \<notin> set (scrape_name i)"
  by (simp add: scrape_name_def minus_not_in_str_int ascii_csv)

lemma chron_name_not_scrape: "chron_name y m \<noteq> scrape_name i"
  using minus_in_chron_name minus_not_in_scrape_name by metis

lemma decrement_month_range:
  "1 \<le> snd a \<Longrightarrow> snd a \<le> 12 \<Longrightarrow>
   1 \<le> snd (decrement_month a) \<and> snd (decrement_month a) \<le> 12 \<and>
   12 * fst (decrement_month a) + snd (decrement_month a) = 12 * fst a + snd a - 1"
  by (auto simp: decrement_month_def)

lemma decrement_month_iter:
  "1 \<le> snd a \<Longrightarrow> snd a \<le> 12 \<Longrightarrow>
   1 \<le> snd ((decrement_month ^^ n) a) \<and> snd ((decrement_month ^^ n) a) \<le> 12 \<and>
   12 * fst ((decrement_month ^^ n) a) + snd ((decrement_month ^^ n) a) = 12 * fst a + snd a - int n"
proof (induction n)
  case 0
  then show ?case by simp
next
  case (Suc n)
  then show ?case
    using decrement_month_range [of "(decrement_month ^^ n) a"] by simp
qed

lemma labels_inj:
  assumes "1 \<le> m" "m \<le> 12"
    and "label_text ((decrement_month ^^ i) (y, m)) @ ascii ''.csv'' =
         label_text ((decrement_month ^^ j) (y, m)) @ ascii ''.csv''"
  shows "i = j"
proof -
  let ?a = "(decrement_month ^^ i) (y, m)" and ?b = "(decrement_month ^^ j) (y, m)"
  from assms(1,2) have ra: "1 \<le> snd ?a" "12 * fst ?a + snd ?a = 12 * y + m - int i"
    using decrement_month_iter [of "(y, m)" i] by simp_all
  from assms(1,2) have rb: "1 \<le> snd ?b" "12 * fst ?b + snd ?b = 12 * y + m - int j"
    using decrement_month_iter [of "(y, m)" j] by simp_all
  have "chron_name (fst ?a) (snd ?a) = chron_name (fst ?b) (snd ?b)"
    using assms(3) by (simp add: chron_name_def label_text_def)
  with ra(1) rb(1) have "fst ?a = fst ?b \<and> snd ?a = snd ?b"
    by (intro chron_name_inj) simp_all
  then have "12 * fst ?a + snd ?a = 12 * fst ?b + snd ?b"
    by (elim conjE) (simp only:)
  then have "12 * y + m - int i = 12 * y + m - int j"
    unfolding ra(2) rb(2) .
  then show ?thesis by linarith
qed

lemma length_natsorted: "length (natsorted xs) = length xs"
  and set_natsorted: "set (natsorted xs) = set xs"
  and distinct_natsorted: "distinct (natsorted xs) = distinct xs"
  by (simp_all add: natsorted_def length_sorted_lt set_sorted_lt distinct_sorted_lt)

lemma anchor_2023_2_labels:
  "label_text ((decrement_month ^^ 0) (2023, 2)) @ ascii ''.csv'' = ascii ''2023-2.csv''"
  "label_text ((decrement_month ^^ 1) (2023, 2)) @ ascii ''.csv'' = ascii ''2023-1.csv''"
  "label_text ((decrement_month ^^ Suc 1) (2023, 2)) @ ascii ''.csv'' = ascii ''2022-12.csv''"
  by (simp_all add: label_text_def decrement_month_def str_int_def digits_of.simps ascii_def)

section \<open>The effect of the renames on the directory\<close>

lemma rename_loop_as_rename_all:
  "rename_loop d calls y m fl = Inr (d', calls') \<Longrightarrow>
   \<exists>ps. calls' = calls @ ps \<and> rename_all d ps = Inr d'"
proof (induction fl arbitrary: d calls y m)
  case Nil
  then show ?case by simp
next
  case (Cons f rest)
  let ?p = "(f, chron_name y m)"
  from Cons.prems obtain d1 where d1: "os_rename d f (chron_name y m) = Inr d1"
    by (auto split: sum.splits)
  with Cons.prems have
    "rename_loop d1 (calls @ [?p]) (fst (decrement_month (y, m))) (snd (decrement_month (y, m))) rest
       = Inr (d', calls')"
    by (auto simp: Let_def decrement_month_def split: if_splits)
  from Cons.IH [OF this] obtain ps where ps: "calls' = (calls @ [?p]) @ ps" "rename_all d1 ps = Inr d'"
    by blast
  have "calls' = calls @ (?p # ps)" using ps(1) by simp
  moreover have "rename_all d (?p # ps) = Inr d'" using d1 ps(2) by simp
  ultimately show ?case by blast
qed

lemma rename_all_effect:
  "distinct (map fst ps) \<Longrightarrow> distinct (map snd ps) \<Longrightarrow> fst ` set ps \<subseteq> dom d \<Longrightarrow>
   snd ` set ps \<inter> dom d = {} \<Longrightarrow>
   \<exists>d'. rename_all d ps = Inr d'
     \<and> dom d' = (dom d - fst ` set ps) \<union> snd ` set ps
     \<and> (\<forall>p \<in> set ps. d' (snd p) = d (fst p))
     \<and> (\<forall>k. k \<notin> fst ` set ps \<and> k \<notin> snd ` set ps \<longrightarrow> d' k = d k)"
proof (induction ps arbitrary: d)
  case Nil
  then show ?case by simp
next
  case (Cons p ps)
  obtain s t where p: "p = (s, t)" by (cases p)
  from Cons.prems p obtain c where c: "d s = Some c" by auto
  let ?d = "(d(s := None))(t \<mapsto> c)"
  have step: "os_rename d s t = Inr ?d" using c by (simp add: os_rename_def)
  have t_new: "t \<notin> dom d" "t \<noteq> s" using Cons.prems p c by auto
  have a1: "distinct (map fst ps)" and a2: "distinct (map snd ps)"
    using Cons.prems by simp_all
  have s_out: "s \<notin> fst ` set ps" and t_out: "t \<notin> snd ` set ps"
    using Cons.prems p by auto
  have s_out2: "s \<notin> snd ` set ps" using Cons.prems(4) c by auto
  have t_out2: "t \<notin> fst ` set ps" using Cons.prems(3) t_new(1) by auto
  have a3: "fst ` set ps \<subseteq> dom ?d"
    using Cons.prems(3) s_out by auto
  have a4: "snd ` set ps \<inter> dom ?d = {}"
    using Cons.prems(4) t_out by auto
  from Cons.IH [OF a1 a2 a3 a4] obtain d' where d':
    "rename_all ?d ps = Inr d'"
    "dom d' = (dom ?d - fst ` set ps) \<union> snd ` set ps"
    "\<forall>q \<in> set ps. d' (snd q) = ?d (fst q)"
    "\<forall>k. k \<notin> fst ` set ps \<and> k \<notin> snd ` set ps \<longrightarrow> d' k = ?d k"
    by blast
  have r: "rename_all d (p # ps) = Inr d'"
    using step d'(1) p by simp
  have dm: "dom d' = (dom d - fst ` set (p # ps)) \<union> snd ` set (p # ps)"
    using d'(2) p t_out2 c by auto
  have ct: "\<forall>q \<in> set (p # ps). d' (snd q) = d (fst q)"
  proof
    fix q assume "q \<in> set (p # ps)"
    then consider "q = p" | "q \<in> set ps" by auto
    then show "d' (snd q) = d (fst q)"
    proof cases
      case 1
      have "d' t = ?d t" using d'(4) t_out t_out2 by blast
      then show ?thesis using 1 p c by simp
    next
      case 2
      then have "fst q \<noteq> s" "fst q \<noteq> t" using s_out t_out2 by auto
      then show ?thesis using d'(3) 2 by simp
    qed
  qed
  have ot: "\<forall>k. k \<notin> fst ` set (p # ps) \<and> k \<notin> snd ` set (p # ps) \<longrightarrow> d' k = d k"
    using d'(4) p by auto
  from r dm ct ot show ?case by blast
qed

section \<open>Chronology Assigner: labelling\<close>

lemma chronology_assigner_calls:
  assumes "distinct listing" and "set listing \<subseteq> dom d"
  shows "\<exists>d'. chronology_assigner y m listing d =
     Inr (d', map (\<lambda>n. (natsorted listing ! n,
                        label_text ((decrement_month ^^ n) (y, m)) @ ascii ''.csv''))
                [0..<length listing])"
proof -
  have "distinct (natsorted listing)" "set (natsorted listing) \<subseteq> dom d"
    using assms by (simp_all add: distinct_natsorted set_natsorted)
  from rename_loop_calls [OF this, of "[]" y m]
  show ?thesis
    by (simp only: chronology_assigner_def length_natsorted append_Nil)
qed

text \<open>
  C1, as amended. For every anchor with a month between 1 and 12 and every directory
  whose file names are in ASCII and none of which is one of the names about to be given,
  the loop succeeds and makes one \<open>os.rename\<close> call per file: the file at position \<open>n\<close>
  (counting from 0) of the natural sort order is renamed to the label obtained by
  decrementing the anchor month \<open>n\<close> times, followed by \<open>.csv\<close>, and at the end its content
  is found under that name; the directory then holds these names and no other. With
  anchor year 2023, month 2 and three files the new names are \<open>2023-2.csv\<close>,
  \<open>2023-1.csv\<close>, \<open>2022-12.csv\<close> in that order.
\<close>

theorem chronology_labelling:
  assumes "1 \<le> start_month" and "start_month \<le> 12"
    and "distinct listing" and "set listing = dom d"
    and "\<forall>f \<in> set listing. list_all (\<lambda>c. c < 128) f"
    and "\<forall>n < length listing.
           label_text ((decrement_month ^^ n) (start_year, start_month)) @ ascii ''.csv'' \<notin> set listing"
  shows "\<exists>d' calls. chronology_assigner start_year start_month listing d = Inr (d', calls)
     \<and> length calls = length listing
     \<and> (\<forall>n < length listing.
           calls ! n = (natsorted listing ! n,
                        label_text ((decrement_month ^^ n) (start_year, start_month)) @ ascii ''.csv'')
           \<and> (\<exists>c. d (natsorted listing ! n) = Some c
                  \<and> d' (label_text ((decrement_month ^^ n) (start_year, start_month)) @ ascii ''.csv'') = Some c))
     \<and> dom d' = (\<lambda>n. label_text ((decrement_month ^^ n) (start_year, start_month)) @ ascii ''.csv'')
                   ` {..<length listing}
     \<and> (start_year = 2023 \<and> start_month = 2 \<and> length listing = 3 \<longrightarrow>
           map snd calls = [ascii ''2023-2.csv'', ascii ''2023-1.csv'', ascii ''2022-12.csv''])"
proof -
  let ?lab = "\<lambda>n. label_text ((decrement_month ^^ n) (start_year, start_month)) @ ascii ''.csv''"
  define calls where "calls = map (\<lambda>n. (natsorted listing ! n, ?lab n)) [0..<length listing]"
  from chronology_assigner_calls [of listing d start_year start_month] assms(3,4)
  obtain d' where run: "chronology_assigner start_year start_month listing d = Inr (d', calls)"
    unfolding calls_def by auto
  have len: "length calls = length listing"
    by (simp add: calls_def)
  have nth: "calls ! n = (natsorted listing ! n, ?lab n)" if "n < length listing" for n
    using that by (simp add: calls_def)
  have fsts: "map fst calls = natsorted listing"
    unfolding calls_def by (simp add: comp_def map_nth [of "natsorted listing", simplified length_natsorted])
  have snds: "map snd calls = map ?lab [0..<length listing]"
    unfolding calls_def by (simp add: comp_def)
  have "inj_on ?lab (set [0..<length listing])"
    using labels_inj [OF assms(1,2)] by (auto simp: inj_on_def)
  then have dis: "distinct (map snd calls)"
    unfolding snds by (simp add: distinct_map)
  have disj: "snd ` set calls \<inter> dom d = {}"
  proof -
    have "l \<notin> dom d" if "l \<in> snd ` set calls" for l
    proof -
      from that have "l \<in> set (map snd calls)" by simp
      then obtain n where "n < length listing" "l = ?lab n" unfolding snds by auto
      with assms(6) have "l \<notin> set listing" by blast
      with assms(4) show ?thesis by simp
    qed
    then show ?thesis by blast
  qed
  from run obtain ps where ps: "calls = [] @ ps" "rename_all d ps = Inr d'"
    unfolding chronology_assigner_def by (blast dest: rename_loop_as_rename_all)
  then have ra: "rename_all d calls = Inr d'" by simp
  have h1: "distinct (map fst calls)"
    unfolding fsts using assms(3) by (simp add: distinct_natsorted)
  have fs: "fst ` set calls = dom d"
    using fsts assms(4) by (metis set_map set_natsorted)
  then have h3: "fst ` set calls \<subseteq> dom d" by simp
  from rename_all_effect [OF h1 dis h3 disj] ra
  have dm: "dom d' = (dom d - fst ` set calls) \<union> snd ` set calls"
    and ct: "\<forall>p \<in> set calls. d' (snd p) = d (fst p)"
    by auto
  have "set (map snd calls) = set (map ?lab [0..<length listing])"
    by (simp only: snds)
  then have "snd ` set calls = ?lab ` {..<length listing}"
    by (simp add: lessThan_atLeast0)
  with dm fs have dm': "dom d' = ?lab ` {..<length listing}" by simp
  have cont: "\<exists>c. d (natsorted listing ! n) = Some c \<and> d' (?lab n) = Some c"
    if "n < length listing" for n
  proof -
    have "calls ! n \<in> set calls" using that len by simp
    with ct have "d' (snd (calls ! n)) = d (fst (calls ! n))" by blast
    then have e: "d' (?lab n) = d (natsorted listing ! n)"
      by (simp add: nth [OF that])
    have "natsorted listing ! n \<in> set (natsorted listing)"
      using that by (simp add: length_natsorted)
    then have "natsorted listing ! n \<in> dom d"
      using assms(4) by (simp add: set_natsorted)
    then obtain c where "d (natsorted listing ! n) = Some c" by blast
    with e show ?thesis by simp
  qed
  have conc: "map snd calls = [ascii ''2023-2.csv'', ascii ''2023-1.csv'', ascii ''2022-12.csv'']"
    if a: "start_year = 2023 \<and> start_month = 2 \<and> length listing = 3"
  proof -
    have "[0..<length listing] = [0, 1, Suc 1]"
      using a by (simp add: upt_rec)
    then have "map snd calls = [?lab 0, ?lab 1, ?lab (Suc 1)]"
      unfolding calls_def by (simp only: list.map map_map comp_def snd_conv)
    then show ?thesis
      using a by (simp only: anchor_2023_2_labels)
  qed
  have every: "\<forall>n < length listing.
           calls ! n = (natsorted listing ! n, ?lab n)
           \<and> (\<exists>c. d (natsorted listing ! n) = Some c \<and> d' (?lab n) = Some c)"
    using nth cont by blast
  have at2023: "start_year = 2023 \<and> start_month = 2 \<and> length listing = 3 \<longrightarrow>
           map snd calls = [ascii ''2023-2.csv'', ascii ''2023-1.csv'', ascii ''2022-12.csv'']"
    using conc by blast
  show ?thesis
    by (rule exI [of _ d'], rule exI [of _ calls]) (intro conjI run len every dm' at2023)
qed

theorem chronology_labelling_witness:
  "\<exists>d' calls.
     chronology_assigner 2023 2 [ascii ''2.csv'', ascii ''10.csv'', ascii ''1.csv'']
       [ascii ''1.csv'' \<mapsto> (1::nat), ascii ''2.csv'' \<mapsto> 2, ascii ''10.csv'' \<mapsto> 10]
       = Inr (d', calls)
     \<and> map snd calls = [ascii ''2023-2.csv'', ascii ''2023-1.csv'', ascii ''2022-12.csv'']
     \<and> d' (ascii ''2023-2.csv'') = Some 1
     \<and> d' (ascii ''2023-1.csv'') = Some 2
     \<and> d' (ascii ''2022-12.csv'') = Some 10"
proof -
  let ?L = "[ascii ''2.csv'', ascii ''10.csv'', ascii ''1.csv'']"
  let ?D = "[ascii ''1.csv'' \<mapsto> (1::nat), ascii ''2.csv'' \<mapsto> 2, ascii ''10.csv'' \<mapsto> 10]"
  let ?lab = "\<lambda>n. label_text ((decrement_month ^^ n) (2023, 2)) @ ascii ''.csv''"
  have h1: "(1::int) \<le> 2" and h2: "(2::int) \<le> 12" by simp_all
  have h3: "distinct ?L" by (simp add: ascii_def)
  have h4: "set ?L = dom ?D" by auto
  have h5: "\<forall>f \<in> set ?L. list_all (\<lambda>c. c < 128) f" by (simp add: ascii_def)
  have labs: "?lab 0 = ascii ''2023-2.csv''" "?lab 1 = ascii ''2023-1.csv''"
    "?lab (Suc 1) = ascii ''2022-12.csv''"
    by (rule anchor_2023_2_labels)+
  have three: "n = 0 \<or> n = 1 \<or> n = Suc 1" if "n < length ?L" for n
    using that by (auto simp: less_Suc_eq)
  have h6: "\<forall>n < length ?L. ?lab n \<notin> set ?L"
  proof (intro allI impI)
    fix n assume "n < length ?L"
    from three [OF this] show "?lab n \<notin> set ?L"
      by (elim disjE) (simp_all only: labs, simp_all add: ascii_def)
  qed
  have srt: "natsorted ?L = [ascii ''1.csv'', ascii ''2.csv'', ascii ''10.csv'']"
    by (simp add: natsorted_def sorted_lt_def natsort_key_def ascii_def is_digit_def int_of_digits_def)
  from chronology_labelling [OF h1 h2 h3 h4 h5 h6] obtain d' calls where
    big: "chronology_assigner 2023 2 ?L ?D = Inr (d', calls)
     \<and> length calls = length ?L
     \<and> (\<forall>n < length ?L. calls ! n = (natsorted ?L ! n, ?lab n)
           \<and> (\<exists>c. ?D (natsorted ?L ! n) = Some c \<and> d' (?lab n) = Some c))
     \<and> dom d' = ?lab ` {..<length ?L}
     \<and> ((2023::int) = 2023 \<and> (2::int) = 2 \<and> length ?L = 3 \<longrightarrow>
           map snd calls = [ascii ''2023-2.csv'', ascii ''2023-1.csv'', ascii ''2022-12.csv''])"
    by (elim exE) (rule that)
  note run = big [THEN conjunct1]
  note every = big [THEN conjunct2, THEN conjunct2, THEN conjunct1]
  note conc = big [THEN conjunct2, THEN conjunct2, THEN conjunct2, THEN conjunct2]
  have c: "map snd calls = [ascii ''2023-2.csv'', ascii ''2023-1.csv'', ascii ''2022-12.csv'']"
    using conc by simp
  have "\<exists>c. ?D (natsorted ?L ! 0) = Some c \<and> d' (?lab 0) = Some c"
    using every [rule_format, of 0] by simp
  then have f0: "d' (ascii ''2023-2.csv'') = Some 1"
    unfolding srt labs by (simp add: ascii_def)
  have "\<exists>c. ?D (natsorted ?L ! 1) = Some c \<and> d' (?lab 1) = Some c"
    using every [rule_format, of 1] by simp
  then have f1: "d' (ascii ''2023-1.csv'') = Some 2"
    unfolding srt labs by (simp add: ascii_def)
  have "\<exists>c. ?D (natsorted ?L ! Suc 1) = Some c \<and> d' (?lab (Suc 1)) = Some c"
    using every [rule_format, of "Suc 1"] by simp
  then have f2: "d' (ascii ''2022-12.csv'') = Some 10"
    unfolding srt labs by (simp add: ascii_def)
  show ?thesis
    by (rule exI [of _ d'], rule exI [of _ calls]) (intro conjI run c f0 f1 f2)
qed

text \<open>
  C1, as stated for every list of input files, fails: run on a directory that already
  holds \<open>2023-2.csv\<close>, \<open>2023-1.csv\<close> and \<open>2022-12.csv\<close> (such as its own result), the first
  file of the natural sort order is \<open>2022-12.csv\<close>; its rename to \<open>2023-2.csv\<close> replaces
  the file of that name, and the third rename moves it back. At the end no file is named
  \<open>2023-2.csv\<close>, the first file is again under \<open>2022-12.csv\<close>, and the content of the
  former \<open>2023-2.csv\<close> is lost.
\<close>

theorem chronology_labelling_counterexample:
  "natsorted [ascii ''2023-2.csv'', ascii ''2023-1.csv'', ascii ''2022-12.csv'']
     = [ascii ''2022-12.csv'', ascii ''2023-1.csv'', ascii ''2023-2.csv'']
   \<and> files_after
       (chronology_assigner 2023 2 [ascii ''2023-2.csv'', ascii ''2023-1.csv'', ascii ''2022-12.csv'']
          [ascii ''2023-2.csv'' \<mapsto> (1::nat), ascii ''2023-1.csv'' \<mapsto> 2, ascii ''2022-12.csv'' \<mapsto> 3])
       [ascii ''2023-2.csv'', ascii ''2023-1.csv'', ascii ''2022-12.csv'']
     = Inr [None, Some 2, Some 3]"
proof
  show srt: "natsorted [ascii ''2023-2.csv'', ascii ''2023-1.csv'', ascii ''2022-12.csv'']
     = [ascii ''2022-12.csv'', ascii ''2023-1.csv'', ascii ''2023-2.csv'']"
    by (simp add: natsorted_def sorted_lt_def natsort_key_def ascii_def is_digit_def int_of_digits_def)
  show "files_after
       (chronology_assigner 2023 2 [ascii ''2023-2.csv'', ascii ''2023-1.csv'', ascii ''2022-12.csv'']
          [ascii ''2023-2.csv'' \<mapsto> (1::nat), ascii ''2023-1.csv'' \<mapsto> 2, ascii ''2022-12.csv'' \<mapsto> 3])
       [ascii ''2023-2.csv'', ascii ''2023-1.csv'', ascii ''2022-12.csv'']
     = Inr [None, Some 2, Some 3]"
    unfolding chronology_assigner_def srt
    by (simp add: files_after_def os_rename_def chron_name_def str_int_def digits_of.simps ascii_def)
qed

section \<open>Chronology Assigner: no collision\<close>

text \<open>
  C10. When the directory holds files with the names the Fetcher gives (a decimal number
  followed by \<open>.csv\<close>) and the anchor month is between 1 and 12, the new names are
  pairwise distinct and none of them is the name of an input file; the loop succeeds, no
  rename replaces a file, the directory ends with exactly the new names, as many as there
  were files, and each new name holds the content of the file it was given to.
\<close>

theorem chronology_no_collision:
  assumes "1 \<le> start_month" and "start_month \<le> 12"
    and "distinct listing" and "set listing = dom d"
    and "\<forall>f \<in> set listing. \<exists>i. f = scrape_name i"
  shows "\<exists>d' calls. chronology_assigner start_year start_month listing d = Inr (d', calls)
     \<and> map fst calls = natsorted listing
     \<and> distinct (map snd calls)
     \<and> set (map snd calls) \<inter> set listing = {}
     \<and> dom d' = set (map snd calls)
     \<and> card (dom d') = length listing
     \<and> (\<forall>p \<in> set calls. d' (snd p) = d (fst p))"
proof -
  let ?lab = "\<lambda>n. label_text ((decrement_month ^^ n) (start_year, start_month)) @ ascii ''.csv''"
  define calls where "calls = map (\<lambda>n. (natsorted listing ! n, ?lab n)) [0..<length listing]"
  from chronology_assigner_calls [of listing d start_year start_month] assms(3,4)
  obtain d' where run: "chronology_assigner start_year start_month listing d = Inr (d', calls)"
    unfolding calls_def by auto
  have fsts: "map fst calls = natsorted listing"
    unfolding calls_def by (simp add: comp_def map_nth [of "natsorted listing", simplified length_natsorted])
  have snds: "map snd calls = map ?lab [0..<length listing]"
    unfolding calls_def by (simp add: comp_def)
  have "inj_on ?lab (set [0..<length listing])"
    using labels_inj [OF assms(1,2)] by (auto simp: inj_on_def)
  then have dis: "distinct (map snd calls)"
    unfolding snds by (simp add: distinct_map)
  have lab_minus: "45 \<in> set (?lab n)" for n
    using minus_in_chron_name [of "fst ((decrement_month ^^ n) (start_year, start_month))"
        "snd ((decrement_month ^^ n) (start_year, start_month))"]
    by (simp add: chron_name_def label_text_def)
  have disj: "set (map snd calls) \<inter> set listing = {}"
  proof -
    have "l \<notin> set listing" if "l \<in> set (map snd calls)" for l
    proof
      assume "l \<in> set listing"
      with assms(5) obtain i where "l = scrape_name i" by blast
      then have "45 \<notin> set l" by (simp add: minus_not_in_scrape_name)
      moreover from that obtain n where "l = ?lab n" unfolding snds by auto
      ultimately show False using lab_minus by simp
    qed
    then show ?thesis by blast
  qed
  from run obtain ps where ps: "calls = [] @ ps" "rename_all d ps = Inr d'"
    unfolding chronology_assigner_def by (blast dest: rename_loop_as_rename_all)
  then have ra: "rename_all d calls = Inr d'" by simp
  have h1: "distinct (map fst calls)"
    unfolding fsts using assms(3) by (simp add: distinct_natsorted)
  have h3: "fst ` set calls \<subseteq> dom d"
    using fsts assms(4) by (metis set_map set_natsorted subset_refl)
  have h4: "snd ` set calls \<inter> dom d = {}"
    using disj assms(4) by simp
  from rename_all_effect [OF h1 dis h3 h4] ra
  have dm: "dom d' = (dom d - fst ` set calls) \<union> snd ` set calls"
    and ct: "\<forall>p \<in> set calls. d' (snd p) = d (fst p)"
    by auto
  have "fst ` set calls = dom d"
    using fsts assms(4) by (metis set_map set_natsorted)
  with dm have dm': "dom d' = set (map snd calls)" by simp
  have cd: "card (dom d') = length listing"
    unfolding dm' using dis by (simp add: distinct_card snds del: set_map)
  show ?thesis
  proof (intro exI conjI)
    show "chronology_assigner start_year start_month listing d = Inr (d', calls)" by (rule run)
    show "map fst calls = natsorted listing" by (rule fsts)
    show "distinct (map snd calls)" by (rule dis)
    show "set (map snd calls) \<inter> set listing = {}" by (rule disj)
    show "dom d' = set (map snd calls)" by (rule dm')
    show "card (dom d') = length listing" by (rule cd)
    show "\<forall>p \<in> set calls. d' (snd p) = d (fst p)" by (rule ct)
  qed
qed

theorem chronology_no_collision_witness:
  "\<exists>d' calls.
     chronology_assigner 2023 2 [scrape_name 0, scrape_name 1, scrape_name 2]
       [scrape_name 0 \<mapsto> (0::nat), scrape_name 1 \<mapsto> 1, scrape_name 2 \<mapsto> 2]
       = Inr (d', calls)
     \<and> distinct (map snd calls) \<and> card (dom d') = 3"
proof -
  have names: "scrape_name 0 = ascii ''0.csv''" "scrape_name 1 = ascii ''1.csv''"
    "scrape_name 2 = ascii ''2.csv''"
    by (simp_all add: scrape_name_def str_int_def digits_of.simps ascii_def)
  have h1: "(1::int) \<le> 2" and h2: "(2::int) \<le> 12" by simp_all
  have h3: "distinct [scrape_name 0, scrape_name 1, scrape_name 2]"
    unfolding names by (simp add: ascii_def)
  have h4: "set [scrape_name 0, scrape_name 1, scrape_name 2]
      = dom [scrape_name 0 \<mapsto> (0::nat), scrape_name 1 \<mapsto> 1, scrape_name 2 \<mapsto> 2]"
    by auto
  have h5: "\<forall>f \<in> set [scrape_name 0, scrape_name 1, scrape_name 2]. \<exists>i. f = scrape_name i"
    by auto
  from chronology_no_collision [OF h1 h2 h3 h4 h5, of 2023] show ?thesis
    by auto
qed

section \<open>Natural sort of the downloaded names\<close>

text \<open>
  C9. The natural sort used before renaming puts \<open>2.csv\<close>, \<open>10.csv\<close>, \<open>1.csv\<close> in the
  order \<open>1.csv\<close>, \<open>2.csv\<close>, \<open>10.csv\<close>, whereas the plain sort of strings gives
  \<open>1.csv\<close>, \<open>10.csv\<close>, \<open>2.csv\<close>.
\<close>

theorem natsorted_numeric_order:
  "natsorted [ascii ''2.csv'', ascii ''10.csv'', ascii ''1.csv'']
     = [ascii ''1.csv'', ascii ''2.csv'', ascii ''10.csv'']
   \<and> py_sorted [ascii ''2.csv'', ascii ''10.csv'', ascii ''1.csv'']
     = [ascii ''1.csv'', ascii ''10.csv'', ascii ''2.csv'']
   \<and> natsorted [ascii ''2.csv'', ascii ''10.csv'', ascii ''1.csv'']
     \<noteq> py_sorted [ascii ''2.csv'', ascii ''10.csv'', ascii ''1.csv'']"
  by code_simp

section \<open>Text Sanitizer: every cell\<close>

lemma remove_one: "str_replace [c] [] s = filter (\<lambda>x. x \<noteq> c) s"
proof (induction s)
  case Nil
  then show ?case by (simp add: str_replace.simps)
next
  case (Cons a s)
  then show ?case by (subst str_replace.simps) (simp add: drop_Suc)
qed

lemma remove_chars_filter:
  "\<forall>p \<in> set chars. length p = 1 \<Longrightarrow>
   remove_chars chars x = filter (\<lambda>c. [c] \<notin> set chars) x"
proof (induction chars arbitrary: x)
  case Nil
  then show ?case by simp
next
  case (Cons p chars)
  then obtain c where p: "p = [c]" by (cases p) auto
  have "remove_chars (p # chars) x = remove_chars chars (filter (\<lambda>x. x \<noteq> c) x)"
    by (simp add: p remove_one)
  also have "\<dots> = filter (\<lambda>c. [c] \<notin> set chars) (filter (\<lambda>x. x \<noteq> c) x)"
    using Cons by simp
  also have "\<dots> = filter (\<lambda>y. y \<noteq> c \<and> [y] \<notin> set chars) x"
    by simp
  also have "\<dots> = filter (\<lambda>c. [c] \<notin> set (p # chars)) x"
    by (rule filter_cong) (simp_all add: p)
  finally show ?case .
qed

text \<open>
  C8. The sanitizer removes every occurrence of the two characters \<open>U+00C2\<close> and
  \<open>U+00C3\<close> from a cell that is a string, so that \<open>Foo\<close>, \<open>U+00C2\<close>, \<open>Bar\<close> becomes
  \<open>FooBar\<close>; a cell that is a number, a boolean or the missing value is returned as it
  is; and \<open>applymap\<close> does this to every cell of every column, keeping the number of rows
  and the column labels.
\<close>

theorem text_sanitizer_cells:
  "clean_text (Str s) chars_to_remove = Str (filter (\<lambda>c. c \<noteq> 0xC2 \<and> c \<noteq> 0xC3) s)
   \<and> clean_text (IntVal i) chars_to_remove = IntVal i
   \<and> clean_text (FloatVal m e) chars_to_remove = FloatVal m e
   \<and> clean_text (BoolVal b) chars_to_remove = BoolVal b
   \<and> clean_text NaN chars_to_remove = NaN
   \<and> clean_text (Str (ascii ''Foo'' @ [0xC2] @ ascii ''Bar'')) chars_to_remove = Str (ascii ''FooBar'')
   \<and> index_len (applymap (\<lambda>x. clean_text x chars_to_remove) df) = index_len df
   \<and> columns (applymap (\<lambda>x. clean_text x chars_to_remove) df) = columns df
   \<and> map snd (cols (applymap (\<lambda>x. clean_text x chars_to_remove) df))
       = map (\<lambda>c. map (\<lambda>x. clean_text x chars_to_remove) (snd c)) (cols df)"
proof -
  have a: "clean_text (Str s) chars_to_remove = Str (filter (\<lambda>c. c \<noteq> 0xC2 \<and> c \<noteq> 0xC3) s)" for s
  proof -
    have "remove_chars chars_to_remove s = filter (\<lambda>c. [c] \<notin> set chars_to_remove) s"
      by (rule remove_chars_filter) (simp add: chars_to_remove_def)
    also have "\<dots> = filter (\<lambda>c. c \<noteq> 0xC2 \<and> c \<noteq> 0xC3) s"
      by (rule filter_cong) (simp_all add: chars_to_remove_def)
    finally show ?thesis by simp
  qed
  have c: "clean_text (Str (ascii ''Foo'' @ [0xC2] @ ascii ''Bar'')) chars_to_remove = Str (ascii ''FooBar'')"
    unfolding a by (simp add: ascii_def)
  show ?thesis
  proof (intro conjI)
    show "clean_text (Str s) chars_to_remove = Str (filter (\<lambda>c. c \<noteq> 0xC2 \<and> c \<noteq> 0xC3) s)"
      by (rule a)
    show "clean_text (Str (ascii ''Foo'' @ [0xC2] @ ascii ''Bar'')) chars_to_remove = Str (ascii ''FooBar'')"
      by (rule c)
  qed (simp_all add: applymap_def columns_def comp_def)
qed

section \<open>Schema Validator: after a mismatch\<close>

lemma set_py_sorted: "set (py_sorted xs) = set xs"
  by (simp add: py_sorted_def set_sorted_lt)

text \<open>
  Over readable files the loop prints one line for every file whose column labels differ
  from the reference, in order, and asks for the exit when there is one; it never stops
  early.
\<close>

lemma check_columns_all:
  "\<forall>f \<in> set files. read_file d f = Inr (fr f) \<Longrightarrow>
   check_columns d column_names files r =
     Inr \<lparr>printed = printed r @
              map (\<lambda>file. ascii ''Column names in '' @ file @ ascii '' do not match'')
                  (filter (\<lambda>f. columns (fr f) \<noteq> column_names) files),
          exit_now = (exit_now r \<or> list_ex (\<lambda>f. columns (fr f) \<noteq> column_names) files)\<rparr>"
proof (induction files arbitrary: r)
  case Nil
  then show ?case by simp
next
  case (Cons f files)
  then have rd: "read_file d f = Inr (fr f)" and rest: "\<forall>g \<in> set files. read_file d g = Inr (fr g)"
    by simp_all
  show ?case
    by (simp add: rd Cons.IH [OF rest])
qed

lemma schema_validator_run:
  assumes "py_sorted listing = first # rest"
    and "\<forall>f \<in> set listing. read_file d f = Inr (fr f)"
  shows "schema_validator listing d =
     Inr (d, \<lparr>printed =
                 map (\<lambda>file. ascii ''Column names in '' @ file @ ascii '' do not match'')
                     (filter (\<lambda>f. columns (fr f) \<noteq> columns (fr first)) rest)
                 @ [ascii ''all columns match!''],
              exit_now = list_ex (\<lambda>f. columns (fr f) \<noteq> columns (fr first)) rest\<rparr>)"
proof -
  have "set (first # rest) = set listing"
    using assms(1) set_py_sorted [of listing] by simp
  then have rd: "read_file d first = Inr (fr first)" "\<forall>f \<in> set rest. read_file d f = Inr (fr f)"
    using assms(2) by auto
  show ?thesis
    unfolding schema_validator_def assms(1)
    by (simp add: rd(1) check_columns_all [OF rd(2)])
qed

text \<open>
  C5. The pass does not halt at the first mismatch. With the reference \<open>a.csv\<close> of columns
  \<open>A, B, C\<close>, the files \<open>b.csv\<close> and \<open>d.csv\<close> of columns \<open>A, C, B\<close> and the file \<open>c.csv\<close>
  of columns \<open>A, B, C\<close>, the run reports \<open>b.csv\<close>, goes on to report \<open>d.csv\<close>, and then
  prints the success message as well; the exit has been asked for and takes effect after
  the cell. The directory is unchanged.
\<close>

theorem schema_validator_does_not_halt:
  "schema_validator [ascii ''b.csv'', ascii ''d.csv'', ascii ''a.csv'', ascii ''c.csv''] validator_dir
     = Inr (validator_dir,
            \<lparr>printed = [ascii ''Column names in b.csv do not match'',
                        ascii ''Column names in d.csv do not match'',
                        ascii ''all columns match!''],
             exit_now = True\<rparr>)"
proof -
  let ?abc = "one_row [(ascii ''A'', IntVal 1), (ascii ''B'', IntVal 2), (ascii ''C'', IntVal 3)] :: frame"
  let ?acb = "one_row [(ascii ''A'', IntVal 1), (ascii ''C'', IntVal 3), (ascii ''B'', IntVal 2)] :: frame"
  let ?fr = "\<lambda>f. if f = ascii ''b.csv'' \<or> f = ascii ''d.csv'' then ?acb else ?abc"
  have h1: "py_sorted [ascii ''b.csv'', ascii ''d.csv'', ascii ''a.csv'', ascii ''c.csv'']
      = ascii ''a.csv'' # [ascii ''b.csv'', ascii ''c.csv'', ascii ''d.csv'']"
    by (simp add: py_sorted_def sorted_lt_def ascii_def)
  have r1: "read_csv file_abc = Inr ?abc"
    by (simp add: file_abc_def read_csv_def one_row_def table_strs_def cell_strs_def
        utf8_decode_def map_table_def ascii_bytes_def ascii_def)
  have r2: "read_csv file_acb = Inr ?acb"
    by (simp add: file_acb_def read_csv_def one_row_def table_strs_def cell_strs_def
        utf8_decode_def map_table_def ascii_bytes_def ascii_def)
  have h2: "\<forall>f \<in> set [ascii ''b.csv'', ascii ''d.csv'', ascii ''a.csv'', ascii ''c.csv''].
      read_file validator_dir f = Inr (?fr f)"
    by (simp add: read_file_def validator_dir_def r1 r2 ascii_def)
  from schema_validator_run [OF h1 h2] show ?thesis
    by (simp add: columns_def one_row_def ascii_def)
qed

section \<open>Combiner: rows and header\<close>

lemma read_dataframes_ok:
  "\<forall>f \<in> set listing. endswith f (ascii ''.csv'') \<longrightarrow> read_file d f = Inr (fr f) \<Longrightarrow>
   read_dataframes d listing = Inr (map fr (filter (\<lambda>f. endswith f (ascii ''.csv'')) listing))"
  by (induction listing) simp_all

lemma length_columns: "length (columns df) = length (cols df)"
  by (simp add: columns_def)

lemma pd_concat_same_columns:
  assumes "dfs \<noteq> []" and "\<forall>df \<in> set dfs. columns df = h"
  shows "pd_concat dfs =
     Inr \<lparr>index_len = sum_list (map index_len dfs),
          cols = map (\<lambda>i. (h ! i, concat (map (\<lambda>df. snd (cols df ! i)) dfs))) [0..<length h]\<rparr>"
proof -
  from assms(1) obtain df0 rest where dfs: "dfs = df0 # rest" by (cases dfs) auto
  have h: "columns df0 = h" using assms(2) dfs by simp
  have "list_all (\<lambda>df. columns df = columns df0) dfs"
    using assms(2) h by (simp add: list_all_iff)
  then show ?thesis
    unfolding pd_concat_def dfs
    by (simp add: h length_columns [symmetric])
qed

lemma pd_concat_different_columns:
  assumes "dfs = df0 # rest" and "\<not> list_all (\<lambda>df. columns df = columns df0) dfs"
    and "\<forall>df \<in> set dfs. distinct (columns df)"
  shows "pd_concat dfs =
     Inr \<lparr>index_len = sum_list (map index_len dfs),
          cols = map (\<lambda>name. (name, concat (map (column_or_nan name) dfs)))
                     (unique_in_order (concat (map columns dfs)))\<rparr>"
proof -
  have "\<not> list_ex (\<lambda>df. \<not> distinct (columns df)) dfs"
    using assms(3) by (simp add: list_ex_iff)
  with assms(2) show ?thesis
    unfolding pd_concat_def
    by (simp only: assms(1) list.case if_False if_True)
qed

lemma length_column_or_nan:
  "wf_table df \<Longrightarrow> length (column_or_nan name df) = index_len df"
proof (cases "map_of (cols df) name")
  case None
  then show ?thesis by (simp add: column_or_nan_def)
next
  case (Some vs)
  then have "(name, vs) \<in> set (cols df)" by (rule map_of_SomeD)
  moreover assume "wf_table df"
  ultimately have "length vs = index_len df"
    by (auto simp: wf_table_def list_all_iff)
  with Some show ?thesis by (simp add: column_or_nan_def)
qed

lemma length_concat_columns:
  "\<forall>df \<in> set dfs. length (g df) = index_len df \<Longrightarrow>
   length (concat (map g dfs)) = sum_list (map index_len dfs)"
  by (induction dfs) simp_all

lemma column_at_index:
  assumes "distinct (columns df)" and "i < length (cols df)"
  shows "column_or_nan (columns df ! i) df = snd (cols df ! i)"
proof -
  have "(columns df ! i, snd (cols df ! i)) \<in> set (cols df)"
    using assms(2) by (simp add: columns_def)
  then have "map_of (cols df) (columns df ! i) = Some (snd (cols df ! i))"
    using assms(1) by (simp add: columns_def)
  then show ?thesis by (simp add: column_or_nan_def)
qed

lemma map_of_tabulate:
  "k \<in> set ks \<Longrightarrow> map_of (map (\<lambda>k. (k, g k)) ks) k = Some (g k)"
  by (induction ks) auto

lemma map_of_tabulate_nth:
  assumes "distinct h" and "i < length h"
  shows "map_of (map (\<lambda>i. (h ! i, g i)) [0..<length h]) (h ! i) = Some (g i)"
proof -
  have "distinct (map fst (map (\<lambda>i. (h ! i, g i)) [0..<length h]))"
    using assms(1) by (simp add: comp_def map_nth)
  moreover have "(h ! i, g i) \<in> set (map (\<lambda>i. (h ! i, g i)) [0..<length h])"
    using assms(2) by auto
  ultimately show ?thesis by (rule map_of_is_SomeI)
qed

lemma pd_concat_rows:
  assumes "dfs \<noteq> []"
    and "\<forall>df \<in> set dfs. wf_table df \<and> distinct (columns df)"
  shows "\<exists>c. pd_concat dfs = Inr c
     \<and> index_len c = sum_list (map index_len dfs)
     \<and> wf_table c
     \<and> (\<forall>name \<in> set (columns c).
           map_of (cols c) name = Some (concat (map (column_or_nan name) dfs)))"
proof -
  from assms(1) obtain df0 rest where dfs: "dfs = df0 # rest" by (cases dfs) auto
  show ?thesis
  proof (cases "list_all (\<lambda>df. columns df = columns df0) dfs")
    case True
    let ?h = "columns df0"
    let ?c = "\<lparr>index_len = sum_list (map index_len dfs),
          cols = map (\<lambda>i. (?h ! i, concat (map (\<lambda>df. snd (cols df ! i)) dfs))) [0..<length ?h]\<rparr> :: frame"
    from True have same: "\<forall>df \<in> set dfs. columns df = ?h" by (simp add: list_all_iff)
    have run: "pd_concat dfs = Inr ?c"
      using assms(1) same by (rule pd_concat_same_columns)
    have dh: "distinct ?h" using assms(2) dfs by simp
    have col: "concat (map (\<lambda>df. snd (cols df ! i)) dfs) = concat (map (column_or_nan (?h ! i)) dfs)"
      if "i < length ?h" for i
    proof -
      have "snd (cols df ! i) = column_or_nan (?h ! i) df" if "df \<in> set dfs" for df
      proof -
        have "columns df = ?h" using same that by blast
        moreover have "distinct (columns df)" using assms(2) that by blast
        moreover have "i < length (cols df)"
          using \<open>i < length ?h\<close> \<open>columns df = ?h\<close> by (metis length_columns)
        ultimately show ?thesis using column_at_index [of df i] by simp
      qed
      then show ?thesis by (metis (mono_tags, lifting) map_eq_conv)
    qed
    have len: "length (concat (map (column_or_nan name) dfs)) = sum_list (map index_len dfs)" for name
      using assms(2) by (intro length_concat_columns) (simp add: length_column_or_nan)
    have wf: "wf_table ?c"
      by (simp add: wf_table_def list_all_iff col len)
    have ct: "\<forall>name \<in> set (columns ?c).
           map_of (cols ?c) name = Some (concat (map (column_or_nan name) dfs))"
    proof
      fix name assume "name \<in> set (columns ?c)"
      then obtain i where i: "i < length ?h" "name = ?h ! i"
        by (auto simp: columns_def)
      have "map_of (cols ?c) (?h ! i) = Some (concat (map (\<lambda>df. snd (cols df ! i)) dfs))"
        using map_of_tabulate_nth [OF dh i(1)] by simp
      then show "map_of (cols ?c) name = Some (concat (map (column_or_nan name) dfs))"
        using col [OF i(1)] i(2) by simp
    qed
    show ?thesis
      using run wf ct by (intro exI [of _ ?c]) simp
  next
    case False
    let ?names = "unique_in_order (concat (map columns dfs))"
    let ?c = "\<lparr>index_len = sum_list (map index_len dfs),
          cols = map (\<lambda>name. (name, concat (map (column_or_nan name) dfs))) ?names\<rparr> :: frame"
    have run: "pd_concat dfs = Inr ?c"
      using dfs False assms(2) by (intro pd_concat_different_columns) auto
    have len: "length (concat (map (column_or_nan name) dfs)) = sum_list (map index_len dfs)" for name
      using assms(2) by (intro length_concat_columns) (simp add: length_column_or_nan)
    have wf: "wf_table ?c"
      by (simp add: wf_table_def list_all_iff len)
    have ct: "\<forall>name \<in> set (columns ?c).
           map_of (cols ?c) name = Some (concat (map (column_or_nan name) dfs))"
      by (simp add: columns_def comp_def map_of_tabulate)
    show ?thesis
      using run wf ct by (intro exI [of _ ?c]) simp
  qed
qed

lemmas eval_defs =
  ascii_def ascii_bytes_def one_row_def columns_def map_table_def table_strs_def cell_strs_def
  latin1_decode_def utf8_decode_def utf8_encode_def utf8_encode_cp_def encodable_cp_def
  read_csv_latin_def read_csv_def to_csv_def read_file_def
  df_rename_def df_insert_def df_drop_def endswith_def rfind_def splitext_def
  rename_columns_def del_columns_def insert_pay_date_def normalize_frame_def normalize_file_def

text \<open>
  C3. When the listing has at least one \<open>.csv\<close> entry and every such entry reads as a
  well-formed frame (with unique column labels, as \<open>read_csv\<close> gives them), the combiner
  produces a frame whose number of rows is the sum of the numbers of rows of the files;
  every column of the result has that many values, and they are the values of the files
  for that column, in listing order, one after the other, with missing values where a
  file lacks the column: no row is dropped or merged.
\<close>

theorem combiner_row_count:
  assumes "\<forall>f \<in> set listing. endswith f (ascii ''.csv'') \<longrightarrow>
             read_file d f = Inr (fr f) \<and> wf_table (fr f) \<and> distinct (columns (fr f))"
    and "filter (\<lambda>f. endswith f (ascii ''.csv'')) listing \<noteq> []"
  shows "\<exists>c. combined_df listing d = Inr c
     \<and> index_len c = sum_list (map (\<lambda>f. index_len (fr f)) (filter (\<lambda>f. endswith f (ascii ''.csv'')) listing))
     \<and> wf_table c
     \<and> (\<forall>name \<in> set (columns c).
           map_of (cols c) name =
             Some (concat (map (\<lambda>f. column_or_nan name (fr f))
                            (filter (\<lambda>f. endswith f (ascii ''.csv'')) listing))))"
proof -
  let ?dfs = "map fr (filter (\<lambda>f. endswith f (ascii ''.csv'')) listing)"
  have rd: "read_dataframes d listing = Inr ?dfs"
    using assms(1) by (intro read_dataframes_ok) blast
  have ne: "?dfs \<noteq> []" using assms(2) by simp
  have ok: "\<forall>df \<in> set ?dfs. wf_table df \<and> distinct (columns df)"
    using assms(1) by auto
  from pd_concat_rows [OF ne ok] show ?thesis
    by (simp only: combined_df_def rd sum.case map_map comp_def)
qed

lemma read_file_jan: "read_file combiner_dir (ascii ''2023-1.csv'') = Inr frame_jan"
  by (simp add: combiner_dir_def file_jan_def frame_jan_def eval_defs)

lemma read_file_feb: "read_file combiner_dir (ascii ''2023-2.csv'') = Inr frame_feb"
  by (simp add: combiner_dir_def file_feb_def frame_feb_def eval_defs)

lemma example_frames_wf:
  "wf_table frame_jan" "wf_table frame_feb"
  "columns frame_jan = canonical_header" "columns frame_feb = canonical_header"
  "distinct canonical_header"
  by (simp_all add: frame_jan_def frame_feb_def wf_table_def one_row_def columns_def
      canonical_header_def ascii_def)

lemma example_listing:
  "filter (\<lambda>f. endswith f (ascii ''.csv'')) [ascii ''2023-2.csv'', ascii ''2023-1.csv'']
     = [ascii ''2023-2.csv'', ascii ''2023-1.csv'']"
  by (simp add: endswith_def ascii_def)

theorem combiner_row_count_witness:
  "\<exists>c. combined_df [ascii ''2023-2.csv'', ascii ''2023-1.csv''] combiner_dir = Inr c
     \<and> index_len c = 2"
proof -
  let ?fr = "\<lambda>f. if f = ascii ''2023-1.csv'' then frame_jan else frame_feb"
  have feb: "ascii ''2023-2.csv'' \<noteq> ascii ''2023-1.csv''" by (simp add: ascii_def)
  have h1: "\<forall>f \<in> set [ascii ''2023-2.csv'', ascii ''2023-1.csv''].
      endswith f (ascii ''.csv'') \<longrightarrow>
        read_file combiner_dir f = Inr (?fr f) \<and> wf_table (?fr f) \<and> distinct (columns (?fr f))"
    using feb by (simp add: read_file_jan read_file_feb example_frames_wf)
  have h2: "filter (\<lambda>f. endswith f (ascii ''.csv'')) [ascii ''2023-2.csv'', ascii ''2023-1.csv''] \<noteq> []"
    by (simp only: example_listing) simp
  from combiner_row_count [OF h1 h2] obtain c where
    c: "combined_df [ascii ''2023-2.csv'', ascii ''2023-1.csv''] combiner_dir = Inr c"
      "index_len c = sum_list (map (\<lambda>f. index_len (?fr f))
         (filter (\<lambda>f. endswith f (ascii ''.csv'')) [ascii ''2023-2.csv'', ascii ''2023-1.csv'']))"
    by blast
  have "index_len c = 2"
    unfolding c(2) example_listing using feb
    by (simp add: frame_jan_def frame_feb_def one_row_def)
  with c(1) show ?thesis by blast
qed

section \<open>Amount sign normalization: the attribute error\<close>

lemma getattr_column_missing:
  "name \<notin> set (columns df) \<Longrightarrow> getattr_column df name = Inl AttributeError"
proof -
  assume "name \<notin> set (columns df)"
  then have "map_of (cols df) name = None"
    by (simp add: columns_def map_of_eq_None_iff)
  then show ?thesis by (simp add: getattr_column_def)
qed

text \<open>
  C6. When the dataset read from the consolidated file has no column labelled \<open>num\<close>,
  the sign-normalization cell ends in an attribute error at the first \<open>df.num\<close>, whatever
  the conversion to floating point would do; nothing is normalized.
\<close>

theorem sign_fixup_attribute_error:
  assumes "read_csv file = Inr df" and "ascii ''num'' \<notin> set (columns df)"
  shows "sign_fixup_cell astype_float file = Inl AttributeError"
  using assms by (simp add: sign_fixup_cell_def sign_fixup_def getattr_column_missing)

theorem sign_fixup_attribute_error_witness:
  "sign_fixup_cell (\<lambda>vs. Inr vs) file_jan = Inl AttributeError"
proof -
  have h1: "read_csv file_jan = Inr frame_jan"
    by (simp add: file_jan_def frame_jan_def eval_defs)
  have h2: "ascii ''num'' \<notin> set (columns frame_jan)"
    by (simp add: frame_jan_def one_row_def columns_def ascii_def)
  from sign_fixup_attribute_error [OF h1 h2] show ?thesis .
qed

section \<open>UTF-8: decoding what was encoded\<close>

lemma decode_one_byte:
  "b < 0x80 \<Longrightarrow> utf8_decode_nat (b # rest) = map_option ((#) b) (utf8_decode_nat rest)"
  by (cases rest rule: utf8_decode_nat.cases) simp_all

lemma decode_two_bytes:
  assumes "0xC2 \<le> b" "b \<le> 0xDF" "is_cont b1"
  shows "utf8_decode_nat (b # b1 # rest)
     = map_option ((#) ((b - 0xC0) * 64 + (b1 - 0x80))) (utf8_decode_nat rest)"
proof -
  have "\<not> b < 0x80" using assms(1) by simp
  then show ?thesis
    using assms by (cases rest rule: utf8_decode_nat.cases) simp_all
qed

lemma decode_three_bytes:
  assumes "0xE0 \<le> b" "b \<le> 0xEF" "is_cont b1" "is_cont b2"
    and "c = (b - 0xE0) * 4096 + (b1 - 0x80) * 64 + (b2 - 0x80)"
    and "0x800 \<le> c" "encodable_cp c"
  shows "utf8_decode_nat (b # b1 # b2 # rest) = map_option ((#) c) (utf8_decode_nat rest)"
proof -
  have n: "\<not> b < 0x80" "\<not> (0xC2 \<le> b \<and> b \<le> 0xDF \<and> is_cont b1)"
    using assms(1) by simp_all
  show ?thesis
  proof (cases rest)
    case Nil
    then show ?thesis
      using n assms(1-4,6,7) by (simp add: assms(5) Let_def)
  next
    case (Cons b3 r)
    then show ?thesis
      using n assms(1-4,6,7) by (simp add: assms(5) Let_def)
  qed
qed

lemma decode_four_bytes:
  assumes "0xF0 \<le> b" "b \<le> 0xF4" "is_cont b1" "is_cont b2" "is_cont b3"
    and "c = (b - 0xF0) * 262144 + (b1 - 0x80) * 4096 + (b2 - 0x80) * 64 + (b3 - 0x80)"
    and "0x10000 \<le> c" "c < 0x110000"
  shows "utf8_decode_nat (b # b1 # b2 # b3 # rest) = map_option ((#) c) (utf8_decode_nat rest)"
proof -
  have n: "\<not> b < 0x80" "\<not> (0xC2 \<le> b \<and> b \<le> 0xDF \<and> is_cont b1)"
    "\<not> (0xE0 \<le> b \<and> b \<le> 0xEF \<and> is_cont b1 \<and> is_cont b2 \<and> P)" for P
    using assms(1) by simp_all
  show ?thesis
    using assms(1-5,7,8) by (simp add: n assms(6) [symmetric] Let_def)
qed


lemma unat_byte: "n < 256 \<Longrightarrow> unat (word_of_nat n :: 8 word) = n"
  by (simp add: unat_of_nat)

lemma div_upper: "(c::nat) < k * n \<Longrightarrow> c div n < k"
  by (rule less_mult_imp_div_less)

lemma div_lower: "k * n \<le> (c::nat) \<Longrightarrow> 0 < n \<Longrightarrow> k \<le> c div n"
  using div_le_mono [of "k * n" c n] by simp

lemma split_three: "(c::nat) = c div 4096 * 4096 + c div 64 mod 64 * 64 + c mod 64"
proof -
  have "c mod 4096 = 64 * (c div 64 mod 64) + c mod 64"
    using mod_mult2_eq [of c 64 64] by simp
  moreover have "c = c div 4096 * 4096 + c mod 4096"
    by simp
  ultimately show ?thesis by linarith
qed

lemma split_four:
  "(c::nat) = c div 262144 * 262144 + c div 4096 mod 64 * 4096 + c div 64 mod 64 * 64 + c mod 64"
proof -
  have "c mod 262144 = 4096 * (c div 4096 mod 64) + c mod 4096"
    using mod_mult2_eq [of c 4096 64] by simp
  moreover have "c mod 4096 = 64 * (c div 64 mod 64) + c mod 64"
    using mod_mult2_eq [of c 64 64] by simp
  moreover have "c = c div 262144 * 262144 + c mod 262144"
    by simp
  ultimately show ?thesis by linarith
qed

lemma is_cont_low_bits: "is_cont (0x80 + x mod 64)"
  by (simp add: is_cont_def)

lemma decode_encode_cp:
  assumes "encodable_cp c"
  shows "utf8_decode_nat (map unat (utf8_encode_cp c) @ rest)
     = map_option ((#) c) (utf8_decode_nat rest)"
proof -
  have "c < 0x110000"
    using assms by (auto simp: encodable_cp_def)
  then consider "c < 0x80" | "0x80 \<le> c" "c < 0x800" | "0x800 \<le> c" "c < 0x10000"
    | "0x10000 \<le> c" "c < 0x110000"
    by linarith
  then show ?thesis
  proof cases
    case 1
    then have "map unat (utf8_encode_cp c) = [c]"
      by (simp add: utf8_encode_cp_def unat_byte)
    with 1 show ?thesis by (simp add: decode_one_byte)
  next
    case 2
    let ?b = "0xC0 + c div 64" and ?b1 = "0x80 + c mod 64"
    have r: "0xC2 \<le> ?b" "?b \<le> 0xDF"
      using 2 div_upper [of c 32 64] div_lower [of 2 64 c] by simp_all
    have bs: "map unat (utf8_encode_cp c) = [?b, ?b1]"
      using 2 r by (simp add: utf8_encode_cp_def unat_byte del: of_nat_add)
    have c: "(?b - 0xC0) * 64 + (?b1 - 0x80) = c"
      by simp
    from decode_two_bytes [OF r is_cont_low_bits, of c rest]
    show ?thesis unfolding bs c by simp
  next
    case 3
    let ?b = "0xE0 + c div 4096" and ?b1 = "0x80 + c div 64 mod 64" and ?b2 = "0x80 + c mod 64"
    have r: "0xE0 \<le> ?b" "?b \<le> 0xEF"
      using 3 div_upper [of c 16 4096] by simp_all
    have bs: "map unat (utf8_encode_cp c) = [?b, ?b1, ?b2]"
      using 3 r by (simp add: utf8_encode_cp_def unat_byte del: of_nat_add)
    have c: "c = (?b - 0xE0) * 4096 + (?b1 - 0x80) * 64 + (?b2 - 0x80)"
      using split_three [of c] by simp
    from decode_three_bytes [OF r is_cont_low_bits is_cont_low_bits c 3(1) assms, of rest]
    show ?thesis unfolding bs by simp
  next
    case 4
    let ?b = "0xF0 + c div 262144" and ?b1 = "0x80 + c div 4096 mod 64"
      and ?b2 = "0x80 + c div 64 mod 64" and ?b3 = "0x80 + c mod 64"
    have r: "0xF0 \<le> ?b" "?b \<le> 0xF4"
      using 4 div_upper [of c 5 262144] by simp_all
    have bs: "map unat (utf8_encode_cp c) = [?b, ?b1, ?b2, ?b3]"
      using 4 r by (simp add: utf8_encode_cp_def unat_byte del: of_nat_add)
    have c: "c = (?b - 0xF0) * 262144 + (?b1 - 0x80) * 4096 + (?b2 - 0x80) * 64 + (?b3 - 0x80)"
      using split_four [of c] by simp
    from decode_four_bytes
      [OF r is_cont_low_bits is_cont_low_bits is_cont_low_bits c 4, of rest]
    show ?thesis unfolding bs by simp
  qed
qed

lemma utf8_decode_encode:
  "list_all encodable_cp s \<Longrightarrow> utf8_decode (utf8_encode s) = Some s"
proof (induction s)
  case Nil
  then show ?case by (simp add: utf8_decode_def utf8_encode_def)
next
  case (Cons c s)
  then have "utf8_decode_nat (map unat (utf8_encode s)) = Some s"
    by (simp add: utf8_decode_def)
  moreover have "encodable_cp c" using Cons.prems by simp
  ultimately show ?case
    by (simp add: utf8_decode_def utf8_encode_def decode_encode_cp)
qed


section \<open>Reading back what was written\<close>

lemma cell_strs_map_cell: "cell_strs (map_cell g v) = map g (cell_strs v)"
  by (cases v) (simp_all add: cell_strs_def)

lemma table_strs_map_table: "table_strs (map_table g t) = map g (table_strs t)"
  by (simp add: table_strs_def map_table_def map_concat comp_def cell_strs_map_cell)

lemma map_cell_ident: "(\<forall>s \<in> set (cell_strs v). g s = s) \<Longrightarrow> map_cell g v = v"
  by (cases v) (simp_all add: cell_strs_def)

lemma map_table_ident:
  assumes "\<forall>s \<in> set (table_strs t). g s = s"
  shows "map_table g t = t"
proof -
  have "(g (fst c), map (map_cell g) (snd c)) = c" if "c \<in> set (cols t)" for c
  proof -
    have "g (fst c) = fst c"
      using assms that by (auto simp: table_strs_def)
    moreover have "map_cell g v = v" if "v \<in> set (snd c)" for v
      using assms \<open>c \<in> set (cols t)\<close> that by (intro map_cell_ident) (auto simp: table_strs_def)
    then have "map (map_cell g) (snd c) = snd c"
      by (simp add: map_idI)
    ultimately show ?thesis by (cases c) simp
  qed
  then have "map (\<lambda>c. (g (fst c), map (map_cell g) (snd c))) (cols t) = cols t"
    by (simp add: map_idI)
  then show ?thesis by (simp add: map_table_def)
qed

lemma map_table_comp: "map_table g (map_table h t) = map_table (\<lambda>s. g (h s)) t"
  by (simp add: map_table_def comp_def cell.map_comp)

text \<open>
  In the model a frame that was written reads back as it was. Of pandas this holds for
  the labels when they are unique, and for the text fields that do not read as a number
  or as a missing value; the renaming of repeated labels and the type inference of
  \<open>read_csv\<close> are not modelled.
\<close>

lemma read_csv_to_csv:
  assumes "to_csv df = Inr f"
  shows "read_csv f = Inr df"
proof -
  from assms have enc: "list_all (list_all encodable_cp) (table_strs df)"
    and f: "f = map_table utf8_encode df"
    by (auto simp: to_csv_def split: if_splits)
  have rt: "utf8_decode (utf8_encode s) = Some s" if "s \<in> set (table_strs df)" for s
    using enc that by (intro utf8_decode_encode) (simp add: list_all_iff)
  have ok: "list_all (\<lambda>s. utf8_decode s \<noteq> None) (table_strs f)"
    using rt by (simp add: f table_strs_map_table list_all_iff)
  have "map_table (\<lambda>s. the (utf8_decode s)) f = map_table (\<lambda>s. the (utf8_decode (utf8_encode s))) df"
    by (simp add: f map_table_comp)
  also have "\<dots> = df"
    using rt by (intro map_table_ident) simp
  finally show ?thesis
    using ok by (simp add: read_csv_def)
qed

section \<open>Schema Normalizer: flagged files are still rewritten\<close>

lemma in_table_strs:
  "s \<in> set (table_strs t) \<longleftrightarrow> (\<exists>c \<in> set (cols t). s = fst c \<or> Str s \<in> set (snd c))"
proof -
  have "set (cell_strs v) = {s. v = Str s}" for v :: "'a cell"
    by (cases v) (auto simp: cell_strs_def)
  then show ?thesis
    by (auto simp: table_strs_def)
qed

lemma strs_df_rename:
  "s \<in> set (table_strs (df_rename key val df)) \<Longrightarrow> s = val \<or> s \<in> set (table_strs df)"
  by (auto simp: in_table_strs df_rename_def split: if_splits)

lemma strs_rename_pass:
  "s \<in> set (table_strs (rename_pass kvs df)) \<Longrightarrow> s \<in> snd ` set kvs \<or> s \<in> set (table_strs df)"
proof (induction kvs arbitrary: df)
  case Nil
  then show ?case by simp
next
  case (Cons kv kvs)
  let ?df = "if fst kv \<in> set (columns df) then df_rename (fst kv) (snd kv) df else df"
  from Cons.prems have "s \<in> set (table_strs (rename_pass kvs ?df))" by simp
  from Cons.IH [OF this] have "s \<in> snd ` set kvs \<or> s \<in> set (table_strs ?df)" .
  then show ?case
    by (auto dest: strs_df_rename split: if_splits)
qed

lemma strs_df_insert:
  assumes "df_insert loc column val df = Inr df'" and "s \<in> set (table_strs df')"
  shows "s = column \<or> s = val \<or> s \<in> set (table_strs df)"
proof -
  let ?new = "(column, replicate (index_len df) (Str val))"
  from assms(1) have "cols df' = take loc (cols df) @ [?new] @ drop loc (cols df)"
    by (auto simp: df_insert_def split: if_splits)
  then have sub: "set (cols df') \<subseteq> insert ?new (set (cols df))"
    using set_take_subset [of loc "cols df"] set_drop_subset [of loc "cols df"] by auto
  from assms(2) obtain c where c: "c \<in> set (cols df')" "s = fst c \<or> Str s \<in> set (snd c)"
    unfolding in_table_strs by blast
  show ?thesis
  proof (cases "c = ?new")
    case True
    with c(2) show ?thesis by auto
  next
    case False
    with c(1) sub have "c \<in> set (cols df)" by blast
    with c(2) have "s \<in> set (table_strs df)" unfolding in_table_strs by blast
    then show ?thesis by simp
  qed
qed

lemma strs_df_drop:
  "df_drop name df = Inr df' \<Longrightarrow> s \<in> set (table_strs df') \<Longrightarrow> s \<in> set (table_strs df)"
  by (auto simp: in_table_strs df_drop_def split: if_splits)

lemma strs_drop_pass:
  "drop_pass names df = Inr df' \<Longrightarrow> s \<in> set (table_strs df') \<Longrightarrow> s \<in> set (table_strs df)"
proof (induction names arbitrary: df)
  case Nil
  then show ?case by simp
next
  case (Cons name names)
  show ?case
  proof (cases "name \<in> set (columns df)")
    case True
    with Cons.prems(1) obtain df1 where d1: "df_drop name df = Inr df1" "drop_pass names df1 = Inr df'"
      by (auto split: sum.splits)
    from Cons.IH [OF d1(2) Cons.prems(2)] have "s \<in> set (table_strs df1)" .
    with d1(1) show ?thesis by (rule strs_df_drop)
  next
    case False
    with Cons.prems(1) have "drop_pass names df = Inr df'" by simp
    from Cons.IH [OF this Cons.prems(2)] show ?thesis .
  qed
qed

lemma strs_map_table:
  assumes "s \<in> set (table_strs (map_table g t))"
  shows "\<exists>b \<in> set (table_strs t). s = g b"
proof -
  from assms obtain c where c: "c \<in> set (cols t)"
    "s = g (fst c) \<or> Str s \<in> set (map (map_cell g) (snd c))"
    unfolding in_table_strs by (auto simp: map_table_def)
  from c(2) show ?thesis
  proof
    assume "s = g (fst c)"
    moreover have "fst c \<in> set (table_strs t)"
      unfolding in_table_strs using c(1) by blast
    ultimately show ?thesis by blast
  next
    assume "Str s \<in> set (map (map_cell g) (snd c))"
    then obtain v where v: "v \<in> set (snd c)" "map_cell g v = Str s" by auto
    from v(2) obtain b where b: "v = Str b" "s = g b" by (cases v) auto
    have "b \<in> set (table_strs t)"
      unfolding in_table_strs using c(1) v(1) b(1) by blast
    with b(2) show ?thesis by blast
  qed
qed

lemma strs_read_csv_latin:
  assumes "s \<in> set (table_strs (read_csv_latin f))"
  shows "list_all encodable_cp s"
proof -
  from assms obtain b where "s = latin1_decode b"
    unfolding read_csv_latin_def by (blast dest: strs_map_table)
  moreover have "unat w < 55296" for w :: "8 word"
    using unsigned_less [of w, where 'a = nat] by simp
  ultimately show ?thesis
    by (simp add: latin1_decode_def list_all_iff encodable_cp_def)
qed


lemma splitext_stem_subset: "set (fst (splitext p)) \<subseteq> set p"
  using set_take_subset [of _ p] by (auto simp: splitext_def Let_def)

lemma strs_insert_pay_date:
  assumes "insert_pay_date filename df = Inr df'" and "s \<in> set (table_strs df')"
  shows "s = ascii ''Pay Date'' \<or> s = fst (splitext filename) \<or> s \<in> set (table_strs df)"
proof (cases "ascii ''Pay Date'' \<notin> set (columns df)")
  case True
  with assms(1) have "df_insert 2 (ascii ''Pay Date'') (fst (splitext filename)) df = Inr df'"
    by (simp add: insert_pay_date_def)
  from strs_df_insert [OF this assms(2)] show ?thesis .
next
  case False
  with assms show ?thesis by (simp add: insert_pay_date_def)
qed

lemma normalize_frame_encodable:
  assumes "normalize_frame filename (read_csv_latin f) = Inr df"
    and "list_all encodable_cp filename"
  shows "list_all (list_all encodable_cp) (table_strs df)"
proof -
  from assms(1) obtain df1 where
    ins: "insert_pay_date filename (rename_pass rename_columns (read_csv_latin f)) = Inr df1"
    and drp: "drop_pass del_columns df1 = Inr df"
    by (auto simp: normalize_frame_def split: sum.splits)
  have "list_all encodable_cp s" if "s \<in> set (table_strs df)" for s
  proof -
    from strs_drop_pass [OF drp that] have "s \<in> set (table_strs df1)" .
    from strs_insert_pay_date [OF ins this]
    consider "s = ascii ''Pay Date''" | "s = fst (splitext filename)"
      | "s \<in> set (table_strs (rename_pass rename_columns (read_csv_latin f)))" by blast
    then show ?thesis
    proof cases
      case 1
      then show ?thesis by (simp add: ascii_def encodable_cp_def)
    next
      case 2
      then show ?thesis
        using assms(2) splitext_stem_subset [of filename] by (auto simp: list_all_iff)
    next
      case 3
      from strs_rename_pass [OF this]
      show ?thesis
      proof
        assume "s \<in> snd ` set rename_columns"
        then show ?thesis
          by (auto simp: rename_columns_def ascii_def encodable_cp_def)
      next
        assume "s \<in> set (table_strs (read_csv_latin f))"
        then show ?thesis by (rule strs_read_csv_latin)
      qed
    qed
  qed
  then show ?thesis by (simp add: list_all_iff)
qed

lemma columns_df_rename:
  "columns (df_rename key val df) = map (\<lambda>n. if n = key then val else n) (columns df)"
  by (simp add: df_rename_def columns_def comp_def)

lemma length_cols_rename_pass: "length (cols (rename_pass kvs df)) = length (cols df)"
  by (induction kvs arbitrary: df) (simp_all add: df_rename_def)

lemma other_label_rename_pass:
  "x \<notin> fst ` set kvs \<Longrightarrow> x \<notin> snd ` set kvs \<Longrightarrow>
   x \<in> set (columns (rename_pass kvs df)) \<longleftrightarrow> x \<in> set (columns df)"
proof (induction kvs arbitrary: df)
  case Nil
  then show ?case by simp
next
  case (Cons kv kvs)
  from Cons.prems have x: "x \<noteq> fst kv" "x \<noteq> snd kv"
    and rest: "x \<notin> fst ` set kvs" "x \<notin> snd ` set kvs" by auto
  have "x \<in> set (columns (df_rename (fst kv) (snd kv) df)) \<longleftrightarrow> x \<in> set (columns df)"
    using x by (auto simp: columns_df_rename)
  then show ?case
    using Cons.IH [OF rest] by simp
qed

lemma pay_date_rename_pass:
  "ascii ''Pay Date'' \<in> set (columns (rename_pass rename_columns df))
     \<longleftrightarrow> ascii ''Pay Date'' \<in> set (columns df)"
  by (rule other_label_rename_pass) (simp_all add: rename_columns_def ascii_def)

lemma drop_pass_total: "\<exists>df'. drop_pass names df = Inr df'"
  by (induction names arbitrary: df) (simp_all add: df_drop_def)

text \<open>
  Normalization yields a frame unless the file has no \<open>Pay Date\<close> column and fewer than
  two columns, in which case \<open>df.insert(2, ...)\<close> raises.
\<close>

lemma normalize_frame_ok:
  assumes "ascii ''Pay Date'' \<in> set (columns df) \<or> 2 \<le> length (cols df)"
  shows "\<exists>df'. normalize_frame filename df = Inr df'"
proof -
  let ?r = "rename_pass rename_columns df"
  have "\<exists>df1. insert_pay_date filename ?r = Inr df1"
    using assms
    by (auto simp: insert_pay_date_def df_insert_def pay_date_rename_pass length_cols_rename_pass)
  then obtain df1 where "insert_pay_date filename ?r = Inr df1" ..
  then show ?thesis
    using drop_pass_total [of del_columns df1] by (simp add: normalize_frame_def)
qed

lemma normalize_frame_index_error:
  assumes "ascii ''Pay Date'' \<notin> set (columns df)" and "length (cols df) < 2"
  shows "normalize_frame filename df = Inl IndexError"
  using assms
  by (simp add: normalize_frame_def insert_pay_date_def df_insert_def pay_date_rename_pass
      length_cols_rename_pass)

lemma normalize_file_csv:
  assumes "endswith filename (ascii ''.csv'')" and "d filename = Some f"
    and "normalize_frame filename (read_csv_latin f) = Inr df"
    and "list_all encodable_cp filename"
  shows "normalize_file filename (d, out) =
           Inr (d(filename \<mapsto> map_table utf8_encode df),
                if length (columns df) \<noteq> 6 then out @ [filename] else out)"
    and "read_csv (map_table utf8_encode df) = Inr df"
proof -
  have w: "to_csv df = Inr (map_table utf8_encode df)"
    using normalize_frame_encodable [OF assms(3,4)] by (simp add: to_csv_def)
  show "normalize_file filename (d, out) =
           Inr (d(filename \<mapsto> map_table utf8_encode df),
                if length (columns df) \<noteq> 6 then out @ [filename] else out)"
    by (simp add: w normalize_file_def assms(1,2,3) Let_def)
  show "read_csv (map_table utf8_encode df) = Inr df"
    using w by (rule read_csv_to_csv)
qed

lemma normalize_file_other:
  "\<not> endswith filename (ascii ''.csv'') \<Longrightarrow> normalize_file filename st = Inr st"
  by (simp add: normalize_file_def)

text \<open>
  C7. Over a directory listing in which every \<open>.csv\<close> entry normalizes to a frame, the
  normalizer does not raise and skips no such entry: each is replaced by its normalized
  frame written as CSV (and reads back as that frame), whatever its number of columns.
  The lines printed are exactly the names of the entries whose normalized frame does not
  have 6 columns, in listing order; nothing is printed for an entry with 6 columns.
  Entries that do not end in \<open>.csv\<close> are left as they are.
\<close>

theorem normalizer_flags_and_rewrites:
  assumes "distinct listing"
    and "\<forall>f \<in> set listing. endswith f (ascii ''.csv'') \<longrightarrow>
           d f = Some (file f) \<and> normalize_frame f (read_csv_latin (file f)) = Inr (nf f)
           \<and> list_all encodable_cp f"
  shows "\<exists>d'. schema_normalizer listing (d, out) =
             Inr (d', out @ filter (\<lambda>f. endswith f (ascii ''.csv'') \<and> length (columns (nf f)) \<noteq> 6) listing)
     \<and> (\<forall>f \<in> set listing. endswith f (ascii ''.csv'') \<longrightarrow>
            d' f = Some (map_table utf8_encode (nf f))
            \<and> read_csv (map_table utf8_encode (nf f)) = Inr (nf f))
     \<and> (\<forall>g. g \<notin> set listing \<or> \<not> endswith g (ascii ''.csv'') \<longrightarrow> d' g = d g)"
  using assms
proof (induction listing arbitrary: d out)
  case Nil
  then show ?case by simp
next
  case (Cons f rest)
  let ?csv = "\<lambda>f. endswith f (ascii ''.csv'')"
  let ?flag = "\<lambda>f. ?csv f \<and> length (columns (nf f)) \<noteq> 6"
  have dis: "distinct rest" and fresh: "f \<notin> set rest"
    using Cons.prems(1) by simp_all
  show ?case
  proof (cases "?csv f")
    case True
    let ?d1 = "d(f \<mapsto> map_table utf8_encode (nf f))"
    let ?out1 = "if length (columns (nf f)) \<noteq> 6 then out @ [f] else out"
    from True Cons.prems(2) have f: "d f = Some (file f)"
      "normalize_frame f (read_csv_latin (file f)) = Inr (nf f)" "list_all encodable_cp f"
      by simp_all
    have step: "normalize_file f (d, out) = Inr (?d1, ?out1)"
      using True f by (rule normalize_file_csv(1))
    have rb: "read_csv (map_table utf8_encode (nf f)) = Inr (nf f)"
      using True f by (rule normalize_file_csv(2))
    have hyp: "\<forall>g \<in> set rest. ?csv g \<longrightarrow>
           ?d1 g = Some (file g) \<and> normalize_frame g (read_csv_latin (file g)) = Inr (nf g)
           \<and> list_all encodable_cp g"
      using Cons.prems(2) fresh by auto
    from Cons.IH [OF dis hyp, of ?out1] obtain d' where
      run: "schema_normalizer rest (?d1, ?out1) = Inr (d', ?out1 @ filter ?flag rest)"
      and wr: "\<forall>g \<in> set rest. ?csv g \<longrightarrow>
            d' g = Some (map_table utf8_encode (nf g))
            \<and> read_csv (map_table utf8_encode (nf g)) = Inr (nf g)"
      and keep: "\<forall>g. g \<notin> set rest \<or> \<not> ?csv g \<longrightarrow> d' g = ?d1 g"
      by blast
    have r1: "schema_normalizer (f # rest) (d, out) = Inr (d', out @ filter ?flag (f # rest))"
      using step run True by simp
    have "d' f = ?d1 f" using keep fresh by blast
    then have r2: "\<forall>g \<in> set (f # rest). ?csv g \<longrightarrow>
            d' g = Some (map_table utf8_encode (nf g))
            \<and> read_csv (map_table utf8_encode (nf g)) = Inr (nf g)"
      using wr rb by simp
    have r3: "\<forall>g. g \<notin> set (f # rest) \<or> \<not> ?csv g \<longrightarrow> d' g = d g"
    proof (intro allI impI)
      fix g assume g: "g \<notin> set (f # rest) \<or> \<not> ?csv g"
      then have "g \<noteq> f" using True by auto
      moreover from g have "g \<notin> set rest \<or> \<not> ?csv g" by auto
      ultimately show "d' g = d g" using keep by simp
    qed
    from r1 r2 r3 show ?thesis by blast
  next
    case False
    have step: "normalize_file f (d, out) = Inr (d, out)"
      using False by (rule normalize_file_other)
    have hyp: "\<forall>g \<in> set rest. ?csv g \<longrightarrow>
           d g = Some (file g) \<and> normalize_frame g (read_csv_latin (file g)) = Inr (nf g)
           \<and> list_all encodable_cp g"
      using Cons.prems(2) by simp
    from Cons.IH [OF dis hyp, of out] obtain d' where
      run: "schema_normalizer rest (d, out) = Inr (d', out @ filter ?flag rest)"
      and wr: "\<forall>g \<in> set rest. ?csv g \<longrightarrow>
            d' g = Some (map_table utf8_encode (nf g))
            \<and> read_csv (map_table utf8_encode (nf g)) = Inr (nf g)"
      and keep: "\<forall>g. g \<notin> set rest \<or> \<not> ?csv g \<longrightarrow> d' g = d g"
      by blast
    have r1: "schema_normalizer (f # rest) (d, out) = Inr (d', out @ filter ?flag (f # rest))"
      using step run False by simp
    have r2: "\<forall>g \<in> set (f # rest). ?csv g \<longrightarrow>
            d' g = Some (map_table utf8_encode (nf g))
            \<and> read_csv (map_table utf8_encode (nf g)) = Inr (nf g)"
      using wr False by simp
    have r3: "\<forall>g. g \<notin> set (f # rest) \<or> \<not> ?csv g \<longrightarrow> d' g = d g"
      using keep by simp
    from r1 r2 r3 show ?thesis by blast
  qed
qed


theorem normalizer_flags_and_rewrites_witness:
  "\<exists>d'. schema_normalizer [ascii ''2023-1.csv'', ascii ''2023-2.csv'']
           ([ascii ''2023-1.csv'' \<mapsto> file_short, ascii ''2023-2.csv'' \<mapsto> file_feb], [])
         = Inr (d', [ascii ''2023-1.csv''])
     \<and> d' (ascii ''2023-1.csv'') = Some file_short_normalized
     \<and> d' (ascii ''2023-2.csv'') = Some file_feb"
proof -
  let ?jan = "ascii ''2023-1.csv''" and ?feb = "ascii ''2023-2.csv''"
  let ?file = "\<lambda>f. if f = ?jan then file_short else file_feb"
  let ?nf = "\<lambda>f. if f = ?jan then frame_short else frame_feb"
  have ne: "?feb \<noteq> ?jan" by (simp add: ascii_def)
  have h1: "distinct [?jan, ?feb]" using ne by simp
  have csv: "endswith ?jan (ascii ''.csv'')" "endswith ?feb (ascii ''.csv'')"
    by (simp_all add: endswith_def ascii_def)
  have n1: "normalize_frame ?jan (read_csv_latin file_short) = Inr frame_short"
    by (simp add: file_short_def frame_short_def eval_defs upt_rec)
  have n2: "normalize_frame ?feb (read_csv_latin file_feb) = Inr frame_feb"
    by (simp add: file_feb_def frame_feb_def eval_defs upt_rec)
  have e: "list_all encodable_cp ?jan" "list_all encodable_cp ?feb"
    by (simp_all add: ascii_def encodable_cp_def)
  have h2: "\<forall>f \<in> set [?jan, ?feb]. endswith f (ascii ''.csv'') \<longrightarrow>
      [?jan \<mapsto> file_short, ?feb \<mapsto> file_feb] f = Some (?file f)
      \<and> normalize_frame f (read_csv_latin (?file f)) = Inr (?nf f)
      \<and> list_all encodable_cp f"
    using ne by (simp add: n1 n2 e)
  have w1: "map_table utf8_encode frame_short = file_short_normalized"
    by (simp add: frame_short_def file_short_normalized_def eval_defs)
  have w2: "map_table utf8_encode frame_feb = file_feb"
    by (simp add: frame_feb_def file_feb_def eval_defs)
  have c1: "length (columns frame_short) \<noteq> 6" "length (columns frame_feb) = 6"
    by (simp_all add: frame_short_def frame_feb_def one_row_def columns_def)
  have fl: "filter (\<lambda>f. endswith f (ascii ''.csv'') \<and> length (columns (?nf f)) \<noteq> 6) [?jan, ?feb]
      = [?jan]"
    using ne csv c1 by simp
  from normalizer_flags_and_rewrites [OF h1 h2, of "[]"] obtain d' where
    "schema_normalizer [?jan, ?feb] ([?jan \<mapsto> file_short, ?feb \<mapsto> file_feb], [])
       = Inr (d', [] @ filter (\<lambda>f. endswith f (ascii ''.csv'') \<and> length (columns (?nf f)) \<noteq> 6) [?jan, ?feb])"
    "\<forall>f \<in> set [?jan, ?feb]. endswith f (ascii ''.csv'') \<longrightarrow>
        d' f = Some (map_table utf8_encode (?nf f))"
    by blast
  then have "schema_normalizer [?jan, ?feb] ([?jan \<mapsto> file_short, ?feb \<mapsto> file_feb], [])
       = Inr (d', [?jan])"
    and "d' ?jan = Some file_short_normalized" and "d' ?feb = Some file_feb"
    using ne csv by (simp_all only: fl append_Nil) (simp_all add: w1 w2)
  then show ?thesis by blast
qed

section \<open>Schema Normalizer: a second pass\<close>

lemma rename_pass_no_keys:
  "\<forall>k \<in> fst ` set kvs. k \<notin> set (columns df) \<Longrightarrow> rename_pass kvs df = df"
  by (induction kvs arbitrary: df) simp_all

lemma keys_gone_rename_pass:
  assumes "distinct (map fst kvs)" and "fst ` set kvs \<inter> snd ` set kvs = {}"
  shows "\<forall>k \<in> fst ` set kvs. k \<notin> set (columns (rename_pass kvs df))"
  using assms
proof (induction kvs arbitrary: df)
  case Nil
  then show ?case by simp
next
  case (Cons kv kvs)
  let ?df = "if fst kv \<in> set (columns df) then df_rename (fst kv) (snd kv) df else df"
  have ne: "fst kv \<noteq> snd kv" using Cons.prems(2) by auto
  have gone: "fst kv \<notin> set (columns ?df)"
    using ne by (auto simp: columns_df_rename)
  have k1: "fst kv \<notin> fst ` set kvs" using Cons.prems(1) by simp
  have k2: "fst kv \<notin> snd ` set kvs" using Cons.prems(2) by auto
  have first: "fst kv \<notin> set (columns (rename_pass kvs ?df))"
    using other_label_rename_pass [OF k1 k2, of ?df] gone by blast
  have d: "distinct (map fst kvs)" using Cons.prems(1) by simp
  have j: "fst ` set kvs \<inter> snd ` set kvs = {}" using Cons.prems(2) by auto
  from Cons.IH [OF d j, of ?df] first show ?case by simp
qed

lemma columns_drop_pass_subset:
  "drop_pass names df = Inr df' \<Longrightarrow> set (columns df') \<subseteq> set (columns df)"
proof (induction names arbitrary: df)
  case Nil
  then show ?case by simp
next
  case (Cons name names)
  show ?case
  proof (cases "name \<in> set (columns df)")
    case True
    let ?df = "df\<lparr>cols := filter (\<lambda>c. fst c \<noteq> name) (cols df)\<rparr>"
    from True Cons.prems have "drop_pass names ?df = Inr df'"
      by (simp add: df_drop_def)
    from Cons.IH [OF this] show ?thesis by (auto simp: columns_def)
  next
    case False
    with Cons.prems have "drop_pass names df = Inr df'" by simp
    from Cons.IH [OF this] show ?thesis .
  qed
qed

lemma names_gone_drop_pass:
  "drop_pass names df = Inr df' \<Longrightarrow> \<forall>n \<in> set names. n \<notin> set (columns df')"
proof (induction names arbitrary: df)
  case Nil
  then show ?case by simp
next
  case (Cons name names)
  let ?df = "if name \<in> set (columns df) then df\<lparr>cols := filter (\<lambda>c. fst c \<noteq> name) (cols df)\<rparr> else df"
  from Cons.prems have run: "drop_pass names ?df = Inr df'"
    by (simp add: df_drop_def split: if_splits)
  have "name \<notin> set (columns ?df)" by (auto simp: columns_def)
  with columns_drop_pass_subset [OF run] have "name \<notin> set (columns df')" by blast
  with Cons.IH [OF run] show ?case by simp
qed

lemma other_label_drop_pass:
  "drop_pass names df = Inr df' \<Longrightarrow> x \<notin> set names \<Longrightarrow> x \<in> set (columns df) \<Longrightarrow>
   x \<in> set (columns df')"
proof (induction names arbitrary: df)
  case Nil
  then show ?case by simp
next
  case (Cons name names)
  let ?df = "if name \<in> set (columns df) then df\<lparr>cols := filter (\<lambda>c. fst c \<noteq> name) (cols df)\<rparr> else df"
  from Cons.prems(1) have run: "drop_pass names ?df = Inr df'"
    by (simp add: df_drop_def split: if_splits)
  have "x \<in> set (columns ?df)"
    using Cons.prems(2,3) by (auto simp: columns_def)
  with Cons.IH [OF run] Cons.prems(2) show ?case by simp
qed

lemma drop_pass_no_names:
  "\<forall>n \<in> set names. n \<notin> set (columns df) \<Longrightarrow> drop_pass names df = Inr df"
  by (induction names arbitrary: df) simp_all

lemma columns_insert_pay_date:
  "insert_pay_date filename df = Inr df' \<Longrightarrow>
   set (columns df') = insert (ascii ''Pay Date'') (set (columns df))"
proof (cases "ascii ''Pay Date'' \<in> set (columns df)")
  case True
  moreover assume "insert_pay_date filename df = Inr df'"
  ultimately show ?thesis by (auto simp: insert_pay_date_def)
next
  case False
  moreover assume "insert_pay_date filename df = Inr df'"
  ultimately have "cols df' = take 2 (cols df) @ [(ascii ''Pay Date'', replicate (index_len df) (Str (fst (splitext filename))))] @ drop 2 (cols df)"
    by (auto simp: insert_pay_date_def df_insert_def split: if_splits)
  then have "columns df' = take 2 (columns df) @ [ascii ''Pay Date''] @ drop 2 (columns df)"
    by (simp add: columns_def take_map drop_map)
  then have "set (columns df') = set (take 2 (columns df) @ drop 2 (columns df)) \<union> {ascii ''Pay Date''}"
    by (simp only: set_append) auto
  then show ?thesis by (simp only: append_take_drop_id) simp
qed

text \<open>
  On the frame in memory the three steps are idempotent: a frame that normalization
  produced is returned unchanged by a second normalization.
\<close>

lemma normalize_frame_idempotent:
  assumes "normalize_frame filename df = Inr df'"
  shows "normalize_frame filename df' = Inr df'"
proof -
  let ?r = "rename_pass rename_columns df"
  from assms obtain df1 where
    ins: "insert_pay_date filename ?r = Inr df1" and drp: "drop_pass del_columns df1 = Inr df'"
    by (auto simp: normalize_frame_def split: sum.splits)
  have sub: "set (columns df') \<subseteq> insert (ascii ''Pay Date'') (set (columns ?r))"
    using columns_drop_pass_subset [OF drp] columns_insert_pay_date [OF ins] by simp
  have a: "\<forall>k \<in> fst ` set rename_columns. k \<notin> set (columns ?r)"
    by (rule keys_gone_rename_pass) (simp_all add: rename_columns_def ascii_def)
  have b: "ascii ''Pay Date'' \<notin> fst ` set rename_columns"
    by (simp add: rename_columns_def ascii_def)
  have keys: "\<forall>k \<in> fst ` set rename_columns. k \<notin> set (columns df')"
  proof
    fix k assume k: "k \<in> fst ` set rename_columns"
    with a have "k \<notin> set (columns ?r)" by blast
    moreover from k b have "k \<noteq> ascii ''Pay Date''" by blast
    ultimately show "k \<notin> set (columns df')" using sub by blast
  qed
  have "ascii ''Pay Date'' \<in> set (columns df1)"
    using columns_insert_pay_date [OF ins] by simp
  moreover have "ascii ''Pay Date'' \<notin> set del_columns"
    by (simp add: del_columns_def ascii_def)
  ultimately have pd: "ascii ''Pay Date'' \<in> set (columns df')"
    using other_label_drop_pass [OF drp] by blast
  have dl: "\<forall>n \<in> set del_columns. n \<notin> set (columns df')"
    using drp by (rule names_gone_drop_pass)
  show ?thesis
    by (simp add: normalize_frame_def rename_pass_no_keys [OF keys] insert_pay_date_def pd
        drop_pass_no_names [OF dl])
qed


text \<open>
  C4. On the files themselves a second pass is not the identity. The pass reads with
  \<open>encoding='latin'\<close> and writes UTF-8: the published file is normalized to a file in
  canonical form that holds the supplier's name in UTF-8, and the pass applied to that
  file leaves the header as it is but writes another supplier, in which the two bytes of
  \<open>U+00E9\<close> have become the two characters \<open>U+00C3\<close>, \<open>U+00A9\<close>.
\<close>

theorem normalizer_second_pass_changes_rows:
  "normalize_file (ascii ''2023-1.csv'') ([ascii ''2023-1.csv'' \<mapsto> cafe_published], [])
     = Inr ([ascii ''2023-1.csv'' \<mapsto> cafe_once], [])
   \<and> normalize_file (ascii ''2023-1.csv'') ([ascii ''2023-1.csv'' \<mapsto> cafe_once], [])
     = Inr ([ascii ''2023-1.csv'' \<mapsto> cafe_twice], [])
   \<and> cafe_twice \<noteq> cafe_once
   \<and> columns cafe_twice = columns cafe_once
   \<and> read_csv cafe_once = Inr (cafe_frame (ascii ''Caf'' @ [0xE9]))
   \<and> read_csv cafe_twice = Inr (cafe_frame (ascii ''Caf'' @ [0xC3, 0xA9]))"
proof (intro conjI)
  show "normalize_file (ascii ''2023-1.csv'') ([ascii ''2023-1.csv'' \<mapsto> cafe_published], [])
     = Inr ([ascii ''2023-1.csv'' \<mapsto> cafe_once], [])"
    by (simp add: cafe_published_def cafe_once_def cafe_file_def eval_defs Let_def upt_rec)
  show "normalize_file (ascii ''2023-1.csv'') ([ascii ''2023-1.csv'' \<mapsto> cafe_once], [])
     = Inr ([ascii ''2023-1.csv'' \<mapsto> cafe_twice], [])"
    by (simp add: cafe_twice_def cafe_once_def cafe_file_def eval_defs Let_def upt_rec)
  show "cafe_twice \<noteq> cafe_once"
    by (simp add: cafe_twice_def cafe_once_def cafe_file_def one_row_def)
  show "columns cafe_twice = columns cafe_once"
    by (simp add: cafe_twice_def cafe_once_def cafe_file_def one_row_def columns_def)
  show "read_csv cafe_once = Inr (cafe_frame (ascii ''Caf'' @ [0xE9]))"
    by (simp add: cafe_once_def cafe_file_def cafe_frame_def eval_defs is_cont_def)
  show "read_csv cafe_twice = Inr (cafe_frame (ascii ''Caf'' @ [0xC3, 0xA9]))"
    by (simp add: cafe_twice_def cafe_file_def cafe_frame_def eval_defs is_cont_def)
qed

section \<open>Consolidated header\<close>

lemma combined_df_same_header:
  assumes "\<forall>f \<in> set listing. endswith f (ascii ''.csv'') \<longrightarrow>
             read_file d f = Inr (fr f) \<and> columns (fr f) = h"
    and "filter (\<lambda>f. endswith f (ascii ''.csv'')) listing \<noteq> []"
  shows "\<exists>c. combined_df listing d = Inr c \<and> columns c = h"
proof -
  let ?dfs = "map fr (filter (\<lambda>f. endswith f (ascii ''.csv'')) listing)"
  have rd: "read_dataframes d listing = Inr ?dfs"
    using assms(1) by (intro read_dataframes_ok) blast
  have ne: "?dfs \<noteq> []" using assms(2) by simp
  have same: "\<forall>df \<in> set ?dfs. columns df = h"
    using assms(1) by auto
  have "map (\<lambda>i. h ! i) [0..<length h] = h" by (rule map_nth)
  then show ?thesis
    by (simp add: combined_df_def rd pd_concat_same_columns [OF ne same] columns_def comp_def)
qed

lemma columns_rename_pass_table:
  assumes "distinct (map fst kvs)" and "fst ` set kvs \<inter> snd ` set kvs = {}"
  shows "columns (rename_pass kvs df)
     = map (\<lambda>n. case map_of kvs n of Some v \<Rightarrow> v | None \<Rightarrow> n) (columns df)"
  using assms
proof (induction kvs arbitrary: df)
  case Nil
  then show ?case by simp
next
  case (Cons kv kvs)
  obtain k v where kv: "kv = (k, v)" by (cases kv)
  let ?df = "if k \<in> set (columns df) then df_rename k v df else df"
  have d: "distinct (map fst kvs)" and j: "fst ` set kvs \<inter> snd ` set kvs = {}"
    using Cons.prems by auto
  have v: "map_of kvs v = None"
    using Cons.prems(2) kv by (auto simp: map_of_eq_None_iff)
  have c1: "columns ?df = map (\<lambda>n. if n = k then v else n) (columns df)"
    by (auto simp: columns_df_rename intro: map_idI [symmetric])
  have "columns (rename_pass (kv # kvs) df) = columns (rename_pass kvs ?df)"
    by (simp add: kv)
  also have "\<dots> = map (\<lambda>n. case map_of kvs n of Some v \<Rightarrow> v | None \<Rightarrow> n) (columns ?df)"
    using d j by (rule Cons.IH)
  also have "\<dots> = map (\<lambda>n. case map_of (kv # kvs) n of Some v \<Rightarrow> v | None \<Rightarrow> n) (columns df)"
    unfolding c1 by (simp add: kv v)
  finally show ?case .
qed

lemma columns_rename_pass:
  "columns (rename_pass rename_columns df) = map renamed (columns df)"
proof -
  have "distinct (map fst rename_columns)" "fst ` set rename_columns \<inter> snd ` set rename_columns = {}"
    by (simp_all add: rename_columns_def ascii_def)
  then show ?thesis
    unfolding renamed_def by (rule columns_rename_pass_table)
qed

lemma columns_drop_pass:
  "drop_pass names df = Inr df' \<Longrightarrow> columns df' = filter (\<lambda>n. n \<notin> set names) (columns df)"
proof (induction names arbitrary: df)
  case Nil
  then show ?case by simp
next
  case (Cons name names)
  let ?df = "if name \<in> set (columns df) then df\<lparr>cols := filter (\<lambda>c. fst c \<noteq> name) (cols df)\<rparr> else df"
  from Cons.prems have run: "drop_pass names ?df = Inr df'"
    by (simp add: df_drop_def split: if_splits)
  have c: "columns ?df = filter (\<lambda>n. n \<noteq> name) (columns df)"
  proof (cases "name \<in> set (columns df)")
    case True
    then show ?thesis by (simp add: columns_def filter_map comp_def)
  next
    case False
    then have "filter (\<lambda>n. n \<noteq> name) (columns df) = columns df"
      by (simp add: filter_id_conv) blast
    with False show ?thesis by simp
  qed
  have "columns df' = filter (\<lambda>n. n \<notin> set names) (columns ?df)"
    using run by (rule Cons.IH)
  also have "\<dots> = filter (\<lambda>n. n \<notin> set (name # names)) (columns df)"
    unfolding c by (simp add: conj_commute)
  finally show ?case .
qed

lemma columns_insert_pay_date_list:
  assumes "insert_pay_date filename df = Inr df'"
  shows "columns df' =
     (if ascii ''Pay Date'' \<in> set (columns df) then columns df
      else take 2 (columns df) @ [ascii ''Pay Date''] @ drop 2 (columns df))"
proof (cases "ascii ''Pay Date'' \<in> set (columns df)")
  case True
  with assms show ?thesis by (simp add: insert_pay_date_def)
next
  case False
  with assms have "cols df' = take 2 (cols df)
      @ [(ascii ''Pay Date'', replicate (index_len df) (Str (fst (splitext filename))))]
      @ drop 2 (cols df)"
    by (auto simp: insert_pay_date_def df_insert_def split: if_splits)
  then have "columns df' = take 2 (columns df) @ [ascii ''Pay Date''] @ drop 2 (columns df)"
    by (simp add: columns_def take_map drop_map)
  with False show ?thesis by simp
qed

lemma renamed_pay_date: "renamed n = ascii ''Pay Date'' \<longleftrightarrow> n = ascii ''Pay Date''"
  by (simp add: renamed_def rename_columns_def ascii_def)

text \<open>The header after normalization, from the header before.\<close>

lemma columns_normalize_frame:
  assumes "normalize_frame filename df = Inr df'"
  shows "columns df' = filter (\<lambda>n. n \<notin> set del_columns)
     (if ascii ''Pay Date'' \<in> set (columns df) then map renamed (columns df)
      else take 2 (map renamed (columns df)) @ [ascii ''Pay Date'']
           @ drop 2 (map renamed (columns df)))"
proof -
  let ?r = "rename_pass rename_columns df"
  from assms obtain df1 where
    ins: "insert_pay_date filename ?r = Inr df1" and drp: "drop_pass del_columns df1 = Inr df'"
    by (auto simp: normalize_frame_def split: sum.splits)
  have "ascii ''Pay Date'' \<in> set (columns ?r) \<longleftrightarrow> ascii ''Pay Date'' \<in> set (columns df)"
    by (rule pay_date_rename_pass)
  then show ?thesis
    using columns_drop_pass [OF drp] columns_insert_pay_date_list [OF ins]
    by (simp add: columns_rename_pass)
qed

lemma synthesized_not_canonical:
  assumes "ascii ''Pay Date'' \<notin> set (columns df)" and "normalize_frame filename df = Inr df'"
  shows "columns df' \<noteq> canonical_header"
proof
  let ?pd = "ascii ''Pay Date''"
  let ?keep = "\<lambda>n. n \<notin> set del_columns"
  let ?r = "map renamed (columns df)"
  assume eq: "columns df' = canonical_header"
  have pd_r: "?pd \<notin> set ?r"
  proof
    assume "?pd \<in> set ?r"
    then obtain n where "n \<in> set (columns df)" "renamed n = ?pd" by auto
    with assms(1) show False by (simp add: renamed_pay_date)
  qed
  have kept: "?keep ?pd"
    by (simp add: del_columns_def ascii_def)
  have "columns df' = filter ?keep (take 2 ?r) @ ?pd # filter ?keep (drop 2 ?r)"
    using columns_normalize_frame [OF assms(2)] assms(1) kept by simp
  moreover have "canonical_header =
      [ascii ''Supplier'', ascii ''Description 1'', ascii ''Description 2'', ascii ''Description 3'']
      @ ?pd # [ascii ''Amount'']"
    by (simp add: canonical_header_def)
  ultimately have e: "filter ?keep (take 2 ?r) @ ?pd # filter ?keep (drop 2 ?r) =
      [ascii ''Supplier'', ascii ''Description 1'', ascii ''Description 2'', ascii ''Description 3'']
      @ ?pd # [ascii ''Amount'']"
    using eq by simp
  have a: "?pd \<notin> set (filter ?keep (drop 2 ?r))"
    using pd_r by (auto dest: in_set_dropD)
  have b: "?pd \<notin> set [ascii ''Amount'']"
    by (simp add: ascii_def)
  from split_at_last [OF a b e]
  have "filter ?keep (take 2 ?r) =
      [ascii ''Supplier'', ascii ''Description 1'', ascii ''Description 2'', ascii ''Description 3'']"
    by simp
  then have "length (filter ?keep (take 2 ?r)) = 4" by simp
  moreover have "length (filter ?keep (take 2 ?r)) \<le> 2"
    using length_filter_le [of ?keep "take 2 ?r"] by simp
  ultimately show False by simp
qed


lemma schema_normalizer_reads:
  assumes "distinct listing"
    and "\<forall>f \<in> set listing. endswith f (ascii ''.csv'') \<longrightarrow>
           d f = Some (file f) \<and> normalize_frame f (read_csv_latin (file f)) = Inr (nf f)
           \<and> list_all encodable_cp f"
  shows "\<exists>d' out'. schema_normalizer listing (d, out) = Inr (d', out')
     \<and> (\<forall>f \<in> set listing. endswith f (ascii ''.csv'') \<longrightarrow> read_file d' f = Inr (nf f))
     \<and> (\<forall>g. g \<notin> set listing \<longrightarrow> d' g = d g)"
  using assms
proof (induction listing arbitrary: d out)
  case Nil
  then show ?case by simp
next
  case (Cons f rest)
  let ?csv = "\<lambda>f. endswith f (ascii ''.csv'')"
  have dis: "distinct rest" and fresh: "f \<notin> set rest"
    using Cons.prems(1) by simp_all
  show ?case
  proof (cases "?csv f")
    case True
    let ?d1 = "d(f \<mapsto> map_table utf8_encode (nf f))"
    let ?out1 = "if length (columns (nf f)) \<noteq> 6 then out @ [f] else out"
    from True Cons.prems(2) have f: "d f = Some (file f)"
      "normalize_frame f (read_csv_latin (file f)) = Inr (nf f)" "list_all encodable_cp f"
      by simp_all
    have step: "normalize_file f (d, out) = Inr (?d1, ?out1)"
      using True f by (rule normalize_file_csv(1))
    have rb: "read_csv (map_table utf8_encode (nf f)) = Inr (nf f)"
      using True f by (rule normalize_file_csv(2))
    have hyp: "\<forall>g \<in> set rest. ?csv g \<longrightarrow>
           ?d1 g = Some (file g) \<and> normalize_frame g (read_csv_latin (file g)) = Inr (nf g)
           \<and> list_all encodable_cp g"
      using Cons.prems(2) fresh by auto
    from Cons.IH [OF dis hyp, of ?out1] obtain d' out' where
      run: "schema_normalizer rest (?d1, ?out1) = Inr (d', out')"
      and rd: "\<forall>g \<in> set rest. ?csv g \<longrightarrow> read_file d' g = Inr (nf g)"
      and keep: "\<forall>g. g \<notin> set rest \<longrightarrow> d' g = ?d1 g"
      by blast
    have r1: "schema_normalizer (f # rest) (d, out) = Inr (d', out')"
      using step run by simp
    have "d' f = Some (map_table utf8_encode (nf f))"
      using keep fresh by simp
    then have "read_file d' f = Inr (nf f)"
      by (simp add: read_file_def rb)
    then have r2: "\<forall>g \<in> set (f # rest). ?csv g \<longrightarrow> read_file d' g = Inr (nf g)"
      using rd by simp
    have r3: "\<forall>g. g \<notin> set (f # rest) \<longrightarrow> d' g = d g"
      using keep by simp
    show ?thesis
      by (rule exI [of _ d'], rule exI [of _ out']) (intro conjI r1 r2 r3)
  next
    case False
    have step: "normalize_file f (d, out) = Inr (d, out)"
      using False by (rule normalize_file_other)
    have hyp: "\<forall>g \<in> set rest. ?csv g \<longrightarrow>
           d g = Some (file g) \<and> normalize_frame g (read_csv_latin (file g)) = Inr (nf g)
           \<and> list_all encodable_cp g"
      using Cons.prems(2) by simp
    from Cons.IH [OF dis hyp, of out] obtain d' out' where
      run: "schema_normalizer rest (d, out) = Inr (d', out')"
      and rd: "\<forall>g \<in> set rest. ?csv g \<longrightarrow> read_file d' g = Inr (nf g)"
      and keep: "\<forall>g. g \<notin> set rest \<longrightarrow> d' g = d g"
      by blast
    have r1: "schema_normalizer (f # rest) (d, out) = Inr (d', out')"
      using step run by simp
    have r2: "\<forall>g \<in> set (f # rest). ?csv g \<longrightarrow> read_file d' g = Inr (nf g)"
      using rd False by simp
    have r3: "\<forall>g. g \<notin> set (f # rest) \<longrightarrow> d' g = d g"
      using keep by simp
    show ?thesis
      by (rule exI [of _ d'], rule exI [of _ out']) (intro conjI r1 r2 r3)
  qed
qed

text \<open>
  C2, as amended. When every \<open>.csv\<close> file of the directory comes with its own \<open>Pay Date\<close>
  column and its labels, once renamed and without the deny-listed ones, are the canonical
  header, the normalizer followed by the combiner gives a consolidated dataset with
  exactly the canonical header. A file without a \<open>Pay Date\<close> column never has the
  canonical header after normalization: the column is inserted at index 2, and dropping
  columns can only move it forward.
\<close>

theorem consolidated_header_canonical:
  "(distinct listing
      \<and> filter (\<lambda>f. endswith f (ascii ''.csv'')) listing \<noteq> []
      \<and> (\<forall>f \<in> set listing. endswith f (ascii ''.csv'') \<longrightarrow>
             d0 f = Some (file f) \<and> list_all encodable_cp f
             \<and> ascii ''Pay Date'' \<in> set (columns (read_csv_latin (file f)))
             \<and> filter (\<lambda>n. n \<notin> set del_columns)
                   (map renamed (columns (read_csv_latin (file f)))) = canonical_header)
     \<longrightarrow> consolidated_header listing d0 = Inr canonical_header)
   \<and> (ascii ''Pay Date'' \<notin> set (columns df) \<and> normalize_frame filename df = Inr df'
     \<longrightarrow> columns df' \<noteq> canonical_header)"
proof (intro conjI impI)
  let ?csv = "\<lambda>f. endswith f (ascii ''.csv'')"
  assume a: "distinct listing
      \<and> filter ?csv listing \<noteq> []
      \<and> (\<forall>f \<in> set listing. ?csv f \<longrightarrow>
             d0 f = Some (file f) \<and> list_all encodable_cp f
             \<and> ascii ''Pay Date'' \<in> set (columns (read_csv_latin (file f)))
             \<and> filter (\<lambda>n. n \<notin> set del_columns)
                   (map renamed (columns (read_csv_latin (file f)))) = canonical_header)"
  then have dis: "distinct listing" and ne: "filter ?csv listing \<noteq> []"
    and files: "\<And>f. f \<in> set listing \<Longrightarrow> ?csv f \<Longrightarrow>
             d0 f = Some (file f) \<and> list_all encodable_cp f
             \<and> ascii ''Pay Date'' \<in> set (columns (read_csv_latin (file f)))
             \<and> filter (\<lambda>n. n \<notin> set del_columns)
                   (map renamed (columns (read_csv_latin (file f)))) = canonical_header"
    by blast+
  define nf where "nf f = (case normalize_frame f (read_csv_latin (file f)) of Inr df \<Rightarrow> df)" for f
  have norm: "normalize_frame f (read_csv_latin (file f)) = Inr (nf f) \<and> columns (nf f) = canonical_header"
    if "f \<in> set listing" "?csv f" for f
  proof -
    from files [OF that] have pd: "ascii ''Pay Date'' \<in> set (columns (read_csv_latin (file f)))"
      and can: "filter (\<lambda>n. n \<notin> set del_columns)
                   (map renamed (columns (read_csv_latin (file f)))) = canonical_header"
      by simp_all
    from normalize_frame_ok [of "read_csv_latin (file f)" f] pd
    obtain df where df: "normalize_frame f (read_csv_latin (file f)) = Inr df" by blast
    then have "nf f = df" by (simp add: nf_def)
    moreover have "columns df = canonical_header"
      using columns_normalize_frame [OF df] pd can by simp
    ultimately show ?thesis using df by simp
  qed
  have hyp: "\<forall>f \<in> set listing. ?csv f \<longrightarrow>
           d0 f = Some (file f) \<and> normalize_frame f (read_csv_latin (file f)) = Inr (nf f)
           \<and> list_all encodable_cp f"
    using files norm by blast
  from schema_normalizer_reads [OF dis hyp, of "[]"] obtain d' out' where
    run: "schema_normalizer listing (d0, []) = Inr (d', out')"
    and rd: "\<forall>f \<in> set listing. ?csv f \<longrightarrow> read_file d' f = Inr (nf f)"
    by blast
  have "\<forall>f \<in> set listing. ?csv f \<longrightarrow> read_file d' f = Inr (nf f) \<and> columns (nf f) = canonical_header"
    using rd norm by blast
  from combined_df_same_header [OF this ne] obtain c where
    "combined_df listing d' = Inr c" "columns c = canonical_header" by blast
  then show "consolidated_header listing d0 = Inr canonical_header"
    by (simp add: consolidated_header_def run)
next
  assume "ascii ''Pay Date'' \<notin> set (columns df) \<and> normalize_frame filename df = Inr df'"
  then show "columns df' \<noteq> canonical_header"
    using synthesized_not_canonical by blast
qed


theorem consolidated_header_canonical_witness:
  "consolidated_header [ascii ''2023-1.csv''] [ascii ''2023-1.csv'' \<mapsto> file_legacy]
     = Inr canonical_header
   \<and> normalize_frame (ascii ''2023-1.csv'') (read_csv_latin file_raw) = Inr frame_raw_normalized
   \<and> columns frame_raw_normalized \<noteq> canonical_header"
proof -
  let ?n = "ascii ''2023-1.csv''"
  have csv: "endswith ?n (ascii ''.csv'')"
    by (simp add: endswith_def ascii_def)
  have h1: "distinct [?n]" by simp
  have h2: "filter (\<lambda>f. endswith f (ascii ''.csv'')) [?n] \<noteq> []"
    using csv by simp
  have cols: "columns (read_csv_latin file_legacy) =
      [ascii ''Body Name'', ascii ''Name'', ascii ''Description Line 1'', ascii ''Description Line 2'',
       ascii ''Description Line 3'', ascii ''Pay Date'', ascii ''Amount'', ascii ''Transaction Number'']"
    by (simp add: file_legacy_def eval_defs)
  have h3a: "ascii ''Pay Date'' \<in> set (columns (read_csv_latin file_legacy))"
    unfolding cols by simp
  have h3b: "filter (\<lambda>n. n \<notin> set del_columns) (map renamed (columns (read_csv_latin file_legacy)))
      = canonical_header"
    unfolding cols
    by (simp add: renamed_def rename_columns_def del_columns_def canonical_header_def ascii_def)
  have h3c: "list_all encodable_cp ?n"
    by (simp add: ascii_def encodable_cp_def)
  have h3: "\<forall>f \<in> set [?n]. endswith f (ascii ''.csv'') \<longrightarrow>
             [?n \<mapsto> file_legacy] f = Some (file_legacy) \<and> list_all encodable_cp f
             \<and> ascii ''Pay Date'' \<in> set (columns (read_csv_latin file_legacy))
             \<and> filter (\<lambda>n. n \<notin> set del_columns)
                   (map renamed (columns (read_csv_latin file_legacy))) = canonical_header"
    using h3a h3b h3c by simp
  have g1: "ascii ''Pay Date'' \<notin> set (columns (read_csv_latin file_raw))"
    by (simp add: file_raw_def eval_defs)
  have g2: "normalize_frame ?n (read_csv_latin file_raw) = Inr frame_raw_normalized"
    by (simp add: file_raw_def frame_raw_normalized_def eval_defs upt_rec)
  note inst = consolidated_header_canonical
    [where listing = "[?n]" and ?d0.0 = "[?n \<mapsto> file_legacy]" and ?file = "\<lambda>f. file_legacy"
       and df = "read_csv_latin file_raw" and filename = ?n and df' = frame_raw_normalized]
  have a: "consolidated_header [?n] [?n \<mapsto> file_legacy] = Inr canonical_header"
    using inst [THEN conjunct1] h1 h2 h3 by blast
  have b: "columns frame_raw_normalized \<noteq> canonical_header"
    using inst [THEN conjunct2] g1 g2 by blast
  from a g2 b show ?thesis by simp
qed

text \<open>
  C2, as stated, fails: a file published without a date column gets \<open>Pay Date\<close> as its
  third column, it has 6 columns and is not flagged, and its header becomes the header
  of the consolidated dataset.
\<close>

theorem consolidated_header_counterexample:
  "consolidated_header [ascii ''2023-1.csv''] [ascii ''2023-1.csv'' \<mapsto> file_raw]
     = Inr [ascii ''Supplier'', ascii ''Description 1'', ascii ''Pay Date'',
            ascii ''Description 2'', ascii ''Description 3'', ascii ''Amount'']
   \<and> consolidated_header [ascii ''2023-1.csv''] [ascii ''2023-1.csv'' \<mapsto> file_raw]
     \<noteq> Inr canonical_header"
proof -
  have n: "schema_normalizer [ascii ''2023-1.csv''] ([ascii ''2023-1.csv'' \<mapsto> file_raw], [])
   = Inr ([ascii ''2023-1.csv'' \<mapsto> one_row
     [(ascii_bytes ''Supplier'', Str (ascii_bytes ''Acme'')),
      (ascii_bytes ''Description 1'', Str (ascii_bytes ''Roads'')),
      (ascii_bytes ''Pay Date'', Str (ascii_bytes ''2023-1'')),
      (ascii_bytes ''Description 2'', Str (ascii_bytes ''Repairs'')),
      (ascii_bytes ''Description 3'', NaN),
      (ascii_bytes ''Amount'', IntVal 750)]], [])"
    by (simp add: eval_defs file_raw_def Let_def upt_rec)
  have "consolidated_header [ascii ''2023-1.csv''] [ascii ''2023-1.csv'' \<mapsto> file_raw]
     = Inr [ascii ''Supplier'', ascii ''Description 1'', ascii ''Pay Date'',
            ascii ''Description 2'', ascii ''Description 3'', ascii ''Amount'']"
    unfolding consolidated_header_def n
    by (simp add: combined_df_def pd_concat_def eval_defs upt_rec)
  then show ?thesis
    by (simp add: canonical_header_def ascii_def)
qed

end
